theory Spec2Isabelle
  imports Main
begin

section \<open>Characters and character classes\<close>

text \<open>
  The program works on Python \<open>str\<close> values. A text is modelled as a \<open>string\<close> whose
  characters are read as the code points 0 to 255 (Latin-1, the range that holds every
  character of the program's own patterns); \<open>length\<close> then counts code points as
  Python's \<open>len\<close> does. The classes below are those of Python's \<open>re\<close> module and of
  \<open>str.strip\<close> for a \<open>str\<close> pattern, restricted to that range.
\<close>

definition is_space :: "char \<Rightarrow> bool" where
  \<comment> \<open>\<open>\s\<close> and \<open>str.isspace\<close>: TAB to CR, FS to US, space, NEL, NBSP\<close>
  "is_space c = (let n = (of_char c :: nat) in
     (9 \<le> n \<and> n \<le> 13) \<or> (28 \<le> n \<and> n \<le> 32) \<or> n = 133 \<or> n = 160)"

definition is_digit :: "char \<Rightarrow> bool" where
  \<comment> \<open>\<open>\d\<close>: the decimal digits\<close>
  "is_digit c = (let n = (of_char c :: nat) in 48 \<le> n \<and> n \<le> 57)"

definition is_word :: "char \<Rightarrow> bool" where
  \<comment> \<open>\<open>\w\<close>, which decides \<open>\b\<close>: alphanumeric characters and the underscore\<close>
  "is_word c = (let n = (of_char c :: nat) in
     (48 \<le> n \<and> n \<le> 57) \<or> (65 \<le> n \<and> n \<le> 90) \<or> n = 95 \<or> (97 \<le> n \<and> n \<le> 122)
     \<or> n = 170 \<or> n = 178 \<or> n = 179 \<or> n = 181 \<or> n = 185 \<or> n = 186
     \<or> (188 \<le> n \<and> n \<le> 190) \<or> (192 \<le> n \<and> n \<le> 214) \<or> (216 \<le> n \<and> n \<le> 246)
     \<or> (248 \<le> n \<and> n \<le> 255))"

definition lower :: "char \<Rightarrow> char" where
  \<comment> \<open>the simple lower-case mapping used by \<open>re.IGNORECASE\<close>\<close>
  "lower c = (let n = (of_char c :: nat) in
     if (65 \<le> n \<and> n \<le> 90) \<or> (192 \<le> n \<and> n \<le> 214) \<or> (216 \<le> n \<and> n \<le> 222)
     then char_of (n + 32) else c)"

section \<open>The text normalizer\<close>

text \<open>\<open>re.sub(r"\s+", " ", s)\<close>: every maximal run of whitespace becomes one space.\<close>

function sub_spaces :: "string \<Rightarrow> string" where
  "sub_spaces [] = []"
| "sub_spaces (c # cs) =
     (if is_space c then CHR '' '' # sub_spaces (dropWhile is_space cs)
      else c # sub_spaces cs)"
  by pat_completeness auto
termination
  by (relation "measure length") (auto simp: less_Suc_eq_le length_dropWhile_le)

text \<open>\<open>s.strip(chars)\<close>: drop the leading and the trailing characters that are in \<open>chars\<close>.\<close>

definition strip_chars :: "string \<Rightarrow> string \<Rightarrow> string" where
  "strip_chars chars s =
     rev (dropWhile (\<lambda>c. c \<in> set chars) (rev (dropWhile (\<lambda>c. c \<in> set chars) s)))"

text \<open>\<open>s.strip()\<close>: drop leading and trailing whitespace.\<close>

definition strip :: "string \<Rightarrow> string" where
  "strip s = rev (dropWhile is_space (rev (dropWhile is_space s)))"

definition clean_chars :: string where
  \<comment> \<open>\<open>" \t\n\r;,."\<close>\<close>
  "clean_chars = [CHR '' '', CHR 0x09, CHR 0x0A, CHR 0x0D, CHR '';'', CHR '','', CHR ''.'']"

definition clean_ingredients_string :: "string \<Rightarrow> string" where
  "clean_ingredients_string s = strip_chars clean_chars (sub_spaces s)"

section \<open>Regular expressions\<close>

text \<open>
  The patterns of the program are sequences of single-character atoms, greedy repetitions
  of such atoms, the assertions \<open>\b\<close> and \<open>^\<close>, and one capturing group. A pattern is
  a list of items; \<open>Mark\<close> records the position where a group opens or closes.
\<close>

datatype flag = IGNORECASE | DOTALL

datatype cls =
    Lit char        \<comment> \<open>a literal character\<close>
  | OneOf string    \<comment> \<open>a set \<open>[...]\<close>\<close>
  | Space           \<comment> \<open>\<open>\s\<close>\<close>
  | Digit           \<comment> \<open>\<open>\d\<close>\<close>
  | Dot             \<comment> \<open>\<open>.\<close>\<close>

datatype item =
    One cls                     \<comment> \<open>exactly one character of the class\<close>
  | Rep cls nat "nat option"    \<comment> \<open>greedy \<open>{lo,hi}\<close>; \<open>None\<close> is no upper bound\<close>
  | WordB                       \<comment> \<open>\<open>\b\<close>\<close>
  | Bol                         \<comment> \<open>\<open>^\<close> without MULTILINE\<close>
  | Mark                        \<comment> \<open>a parenthesis of the group\<close>

type_synonym pattern = "item list"

fun cls_ok :: "flag list \<Rightarrow> cls \<Rightarrow> char \<Rightarrow> bool" where
  "cls_ok fl (Lit p) c = (if IGNORECASE \<in> set fl then lower c = lower p else c = p)"
| "cls_ok fl (OneOf ps) c =
     (if IGNORECASE \<in> set fl then lower c \<in> lower ` set ps else c \<in> set ps)"
| "cls_ok fl Space c = is_space c"
| "cls_ok fl Digit c = is_digit c"
| "cls_ok fl Dot c = (DOTALL \<in> set fl \<or> c \<noteq> CHR 0x0A)"

definition lits :: "string \<Rightarrow> pattern" where
  "lits s = map (\<lambda>c. One (Lit c)) s"

text \<open>\<open>try_down f lo k\<close>: the first success of \<open>f\<close> at \<open>k, k - 1, ..., lo\<close>.\<close>

fun try_down :: "(nat \<Rightarrow> 'a option) \<Rightarrow> nat \<Rightarrow> nat \<Rightarrow> 'a option" where
  "try_down f lo 0 = (if lo = 0 then f 0 else None)"
| "try_down f lo (Suc k) =
     (if Suc k < lo then None
      else case f (Suc k) of Some r \<Rightarrow> Some r | None \<Rightarrow> try_down f lo k)"

text \<open>The character before the position reached after \<open>k\<close> more characters of \<open>s\<close>.\<close>

definition prev_after :: "char option \<Rightarrow> string \<Rightarrow> nat \<Rightarrow> char option" where
  "prev_after prev s k = (if k = 0 then prev else Some (s ! (k - 1)))"

definition word_boundary :: "char option \<Rightarrow> string \<Rightarrow> bool" where
  "word_boundary prev s =
     ((case prev of None \<Rightarrow> False | Some c \<Rightarrow> is_word c)
      \<noteq> (case s of [] \<Rightarrow> False | c # _ \<Rightarrow> is_word c))"

text \<open>
  The backtracking matcher at one position: \<open>prev\<close> is the character before the
  position (\<open>None\<close> at the start of the string) and \<open>s\<close> the text from the position
  on. The result is that of the first successful path in the order Python's engine
  tries them: the texts remaining at each \<open>Mark\<close>, and the text remaining after the
  match. A greedy repetition takes the longest run it can and gives characters back one
  at a time.
\<close>

fun match_here ::
  "flag list \<Rightarrow> pattern \<Rightarrow> char option \<Rightarrow> string \<Rightarrow> (string list \<times> string) option" where
  "match_here fl [] prev s = Some ([], s)"
| "match_here fl (One c # r) prev s =
     (case s of [] \<Rightarrow> None
      | x # xs \<Rightarrow> if cls_ok fl c x then match_here fl r (Some x) xs else None)"
| "match_here fl (Rep c lo hi # r) prev s =
     (let n = length (takeWhile (cls_ok fl c) s);
          m = (case hi of None \<Rightarrow> n | Some h \<Rightarrow> min h n)
      in try_down (\<lambda>k. match_here fl r (prev_after prev s k) (drop k s)) lo m)"
| "match_here fl (WordB # r) prev s =
     (if word_boundary prev s then match_here fl r prev s else None)"
| "match_here fl (Bol # r) prev s =
     (if prev = None then match_here fl r prev s else None)"
| "match_here fl (Mark # r) prev s =
     (case match_here fl r prev s of None \<Rightarrow> None
      | Some (ms, e) \<Rightarrow> Some (s # ms, e))"

text \<open>
  A match object: \<open>m.start()\<close>, \<open>m.end()\<close> and the positions of the marks, as indices
  into the searched string.
\<close>

record match =
  m_start :: nat
  m_end :: nat
  m_marks :: "nat list"

text \<open>
  \<open>re.search\<close>: the match at the leftmost position that has one. \<open>search_from\<close> scans
  the text \<open>s\<close> that begins at index \<open>pos\<close> of a string of length \<open>pos + length s\<close>.
\<close>

fun search_from :: "flag list \<Rightarrow> pattern \<Rightarrow> nat \<Rightarrow> char option \<Rightarrow> string \<Rightarrow> match option" where
  "search_from fl p pos prev s =
     (case match_here fl p prev s of
        Some (ms, e) \<Rightarrow>
          Some \<lparr>m_start = pos, m_end = pos + length s - length e,
                m_marks = map (\<lambda>m. pos + length s - length m) ms\<rparr>
      | None \<Rightarrow>
          (case s of [] \<Rightarrow> None | x # xs \<Rightarrow> search_from fl p (Suc pos) (Some x) xs))"

definition re_search :: "pattern \<Rightarrow> string \<Rightarrow> flag list \<Rightarrow> match option" where
  "re_search p s fl = search_from fl p 0 None s"

text \<open>\<open>re.match\<close>: a match at the start of the string only.\<close>

definition re_match :: "pattern \<Rightarrow> string \<Rightarrow> flag list \<Rightarrow> match option" where
  "re_match p s fl =
     (case match_here fl p None s of None \<Rightarrow> None
      | Some (ms, e) \<Rightarrow>
          Some \<lparr>m_start = 0, m_end = length s - length e,
                m_marks = map (\<lambda>m. length s - length m) ms\<rparr>)"

text \<open>\<open>m.group(1)\<close>: the text between the two marks.\<close>

definition group1 :: "string \<Rightarrow> match \<Rightarrow> string" where
  "group1 s m = (case m_marks m of
       a # b # _ \<Rightarrow> take (b - a) (drop a s)
     | _ \<Rightarrow> [])"

section \<open>The inline-statement extractor\<close>

definition STOP_MARKERS :: "pattern list" where
  "STOP_MARKERS =
    [lits (CHR 0x0A # ''manufactured by''),
     lits (CHR 0x0A # ''made in''),
     lits (CHR 0x0A # ''warning''),
     lits (CHR 0x0A # ''www.''),
     lits (CHR 0x0A # ''keep out of reach''),
     lits (CHR 0x0A # ''uso t'') @ [One (OneOf [CHR ''o'', CHR 0xF3])] @ lits ''pico'',
     lits (CHR 0x0A # ''modo de empleo''),
     lits (CHR 0x0A # ''mode d'' @ [CHR 0x27] @ ''emploi''),
     lits (CHR 0x0A # ''key ingredients''),
     lits (CHR 0x0A # ''ingredientes principales'')]"

text \<open>The tail \<open>\b\s*[:\-]\s*(.+)\<close> that the four label patterns share.\<close>

definition label_tail :: pattern where
  "label_tail =
    [WordB, Rep Space 0 None, One (OneOf '':-''), Rep Space 0 None,
     Mark, Rep Dot 1 None, Mark]"

definition patterns :: "pattern list" where
  "patterns =
    [[WordB] @ lits ''ingredient'' @ [Rep (Lit CHR ''s'') 0 (Some 1)] @ label_tail,
     [WordB] @ lits ''ingredients/ingr'' @ [One (OneOf [CHR 0xE9, CHR ''e''])]
       @ lits ''dients'' @ label_tail,
     [WordB] @ lits ''ingredientes'' @ label_tail,
     [WordB] @ lits ''ingredientes/ingredients'' @ label_tail]"

text \<open>
  The loop over the markers, shared in shape by both extractors: \<open>cut_pos\<close> starts at
  the length of the window and drops to the start of every marker match that lies
  before it.
\<close>

fun cut_loop :: "pattern list \<Rightarrow> string \<Rightarrow> nat \<Rightarrow> nat" where
  "cut_loop [] after cut_pos = cut_pos"
| "cut_loop (sm # sms) after cut_pos =
     (case re_search sm after [IGNORECASE] of
        Some ms \<Rightarrow>
          if m_start ms < cut_pos then cut_loop sms after (m_start ms)
          else cut_loop sms after cut_pos
      | None \<Rightarrow> cut_loop sms after cut_pos)"

fun inline_loop :: "pattern list \<Rightarrow> string \<Rightarrow> string option" where
  "inline_loop [] text = None"
| "inline_loop (pat # pats) text =
     (case re_search pat text [IGNORECASE, DOTALL] of
        None \<Rightarrow> inline_loop pats text
      | Some m \<Rightarrow>
          (let after = group1 text m;
               cut_pos = cut_loop STOP_MARKERS after (length after);
               ingredients = clean_ingredients_string (take cut_pos after)
           in if ingredients \<noteq> [] then Some ingredients else inline_loop pats text))"

definition extract_inline_ingredients :: "string \<Rightarrow> string option" where
  "extract_inline_ingredients text =
     (if text = [] then None else inline_loop patterns text)"

section \<open>The tabular-list extractor\<close>

definition row_prefix :: pattern where
  \<comment> \<open>\<open>^\s*\d+[\.\-]?\s+\<close>\<close>
  "row_prefix =
    [Bol, Rep Space 0 None, Rep Digit 1 None, Rep (OneOf ''.-'') 0 (Some 1), Rep Space 1 None]"

definition cas_number :: pattern where
  \<comment> \<open>\<open>\s\d{2,7}-\d{2}-\d\b\<close>\<close>
  "cas_number =
    [One Space, Rep Digit 2 (Some 7), One (Lit CHR ''-''), Rep Digit 2 (Some 2),
     One (Lit CHR ''-''), One Digit, WordB]"

definition decimal_quantity :: pattern where
  \<comment> \<open>\<open>\s\d+[.,]\d+\<close>\<close>
  "decimal_quantity = [One Space, Rep Digit 1 None, One (OneOf ''.,''), Rep Digit 1 None]"

definition csp_marker :: pattern where
  \<comment> \<open>\<open>\sc\.s\.p\.\<close>\<close>
  "csp_marker = One Space # lits ''c.s.p.''"

text \<open>
  \<open>re.sub(row_prefix, "", line)\<close>. The pattern begins with \<open>^\<close>, so it matches at the
  start of the line or nowhere, and the substitution removes at most that one match.
\<close>

definition strip_row_prefix :: "string \<Rightarrow> string" where
  "strip_row_prefix line =
     (case re_search row_prefix line [] of
        None \<Rightarrow> line
      | Some m \<Rightarrow> take (m_start m) line @ drop (m_end m) line)"

text \<open>
  The result is \<open>None\<close> for a blank line and otherwise a string, which may be empty
  (the caller tests it).
\<close>

definition extract_name_from_line :: "string \<Rightarrow> string option" where
  "extract_name_from_line line0 =
     (if strip line0 = [] then None
      else let line = strip_row_prefix line0 in
        case re_search cas_number line [] of
          Some m \<Rightarrow> Some (strip (take (m_start m) line))
        | None \<Rightarrow>
           (case re_search decimal_quantity line [] of
              Some m \<Rightarrow> Some (strip (take (m_start m) line))
            | None \<Rightarrow>
               (case re_search csp_marker line [IGNORECASE] of
                  Some m \<Rightarrow> Some (strip (take (m_start m) line))
                | None \<Rightarrow> Some (strip line))))"

definition headers :: "pattern list" where
  "headers =
    [lits ''INGREDIENTES/INGREDIENTS'' @ [Rep Space 0 None] @ lits ''(INCI)'',
     lits ''INGREDIENTE'' @ [Rep Space 1 None] @ lits ''INCI'',
     lits ''Lista de ingredientes'',
     lits ''No.'' @ [Rep Space 0 None] @ lits ''INCI name'' @ [Rep Space 0 None]
       @ lits ''CAS No.'']"

definition stop_pats :: "pattern list" where
  "stop_pats =
    [lits (CHR 0x0A # ''Total'') @ [WordB],
     lits (CHR 0x0A # ''Total %''),
     lits (CHR 0x0A # ''Rangos de concentraci'' @ [CHR 0xF3] @ ''n''),
     lits (CHR 0x0A # ''REGULACI'') @ [One (OneOf [CHR 0xD3, CHR ''O''])]
       @ lits ''N COSMETICA'',
     lits (CHR 0x0A # ''AN'') @ [One (OneOf [CHR 0xC1, CHR ''A''])] @ lits ''LISIS'',
     lits (CHR 0x0A # ''2.'') @ [Rep Space 0 None] @ lits ''Fragrance/Perfume'']"

definition inci_label :: pattern where
  \<comment> \<open>\<open>^%?\s*INCI\b\<close>\<close>
  "inci_label =
    [Bol, Rep (Lit CHR ''%'') 0 (Some 1), Rep Space 0 None] @ lits ''INCI'' @ [WordB]"

text \<open>
  \<open>str.splitlines\<close>: a line ends at LF, VT, FF, CR, CR LF, FS, GS, RS or NEL; a
  terminator at the very end opens no further line.
\<close>

definition is_linebreak :: "char \<Rightarrow> bool" where
  "is_linebreak c = (let n = (of_char c :: nat) in
     (10 \<le> n \<and> n \<le> 13) \<or> (28 \<le> n \<and> n \<le> 30) \<or> n = 133)"

fun splitlines_from :: "string \<Rightarrow> string \<Rightarrow> string list" where
  "splitlines_from cur [] = (if cur = [] then [] else [rev cur])"
| "splitlines_from cur [c] =
     (if is_linebreak c then [rev cur] else [rev (c # cur)])"
| "splitlines_from cur (c # d # cs) =
     (if c = CHR 0x0D \<and> d = CHR 0x0A then rev cur # splitlines_from [] cs
      else if is_linebreak c then rev cur # splitlines_from [] (d # cs)
      else splitlines_from (c # cur) (d # cs))"

definition splitlines :: "string \<Rightarrow> string list" where
  "splitlines s = splitlines_from [] s"

text \<open>The loop over the lines of one block; \<open>all_names\<close> is the list it appends to.\<close>

fun row_loop :: "pattern \<Rightarrow> string list \<Rightarrow> string list \<Rightarrow> string list" where
  "row_loop hpat [] all_names = all_names"
| "row_loop hpat (raw_line # rest) all_names =
     (let line = strip raw_line in
      if line = [] then row_loop hpat rest all_names
      else if re_search hpat line [IGNORECASE] \<noteq> None then row_loop hpat rest all_names
      else if re_match inci_label line [IGNORECASE] \<noteq> None then row_loop hpat rest all_names
      else case extract_name_from_line line of
          None \<Rightarrow> row_loop hpat rest all_names
        | Some name \<Rightarrow>
            if name = [] then row_loop hpat rest all_names
            else if length name < 3 then row_loop hpat rest all_names
            else row_loop hpat rest (all_names @ [name]))"

fun header_loop :: "pattern list \<Rightarrow> string \<Rightarrow> string list \<Rightarrow> string list" where
  "header_loop [] text all_names = all_names"
| "header_loop (hpat # hs) text all_names =
     (case re_search hpat text [IGNORECASE] of
        None \<Rightarrow> header_loop hs text all_names
      | Some m \<Rightarrow>
          (let start = m_end m;
               block = drop start text;
               cut_pos = cut_loop stop_pats block (length block);
               block = take cut_pos block
           in header_loop hs text (row_loop hpat (splitlines block) all_names)))"

text \<open>The deduplication loop with its \<open>seen\<close> set and its \<open>unique\<close> list.\<close>

fun unique_loop :: "string list \<Rightarrow> string set \<Rightarrow> string list \<Rightarrow> string list" where
  "unique_loop [] seen unique = unique"
| "unique_loop (n # ns) seen unique =
     (if n \<notin> seen then unique_loop ns (insert n seen) (unique @ [n])
      else unique_loop ns seen unique)"

text \<open>\<open>sep.join(xs)\<close>\<close>

fun join :: "string \<Rightarrow> string list \<Rightarrow> string" where
  "join sep [] = []"
| "join sep [x] = x"
| "join sep (x # y # r) = x @ sep @ join sep (y # r)"

definition extract_table_ingredients :: "string \<Rightarrow> string option" where
  "extract_table_ingredients text =
     (if text = [] then None
      else let all_names = header_loop headers text [] in
        if all_names = [] then None
        else Some (join '', '' (unique_loop all_names {} [])))"

section \<open>Text recovery and the orchestrator\<close>

text \<open>
  The PDF decoder, the rasterizer and the OCR engine are outside the program. They are
  parameters: each may fail with an exception \<open>'e\<close>, which the program does not catch.
  \<open>decode_native\<close> gives what \<open>page.extract_text()\<close> returns for each page of
  \<open>PdfReader(path)\<close>, \<open>rasterize\<close> is \<open>convert_from_path\<close> with the configured
  poppler path, \<open>recognize\<close> is \<open>pytesseract.image_to_string\<close>.
\<close>

type_synonym path = string

record ('e, 'img) services =
  decode_native :: "path \<Rightarrow> 'e + string option list"
  rasterize :: "path \<Rightarrow> 'e + 'img list"
  recognize :: "'img \<Rightarrow> 'e + string"

definition extract_text_from_pdf :: "('e, 'img) services \<Rightarrow> path \<Rightarrow> 'e + string" where
  "extract_text_from_pdf sv path =
     (case decode_native sv path of
        Inl e \<Rightarrow> Inl e
      | Inr pages \<Rightarrow>
          Inr (strip (join [CHR 0x0A]
                 (map (\<lambda>page_text. case page_text of None \<Rightarrow> [] | Some t \<Rightarrow> t) pages))))"

fun ocr_loop :: "('e, 'img) services \<Rightarrow> 'img list \<Rightarrow> string list \<Rightarrow> 'e + string list" where
  "ocr_loop sv [] text_chunks = Inr text_chunks"
| "ocr_loop sv (img # imgs) text_chunks =
     (case recognize sv img of
        Inl e \<Rightarrow> Inl e
      | Inr ocr_text \<Rightarrow> ocr_loop sv imgs (text_chunks @ [ocr_text]))"

definition extract_text_with_ocr :: "('e, 'img) services \<Rightarrow> path \<Rightarrow> 'e + string" where
  "extract_text_with_ocr sv path =
     (case rasterize sv path of
        Inl e \<Rightarrow> Inl e
      | Inr images \<Rightarrow>
          (case ocr_loop sv images [] of
             Inl e \<Rightarrow> Inl e
           | Inr text_chunks \<Rightarrow> Inr (strip (join [CHR 0x0A] text_chunks))))"

text \<open>
  The orchestrator also reports which steps it ran, in order, so that "is never invoked"
  can be said of a step.
\<close>

datatype step = Native_text | Ocr_text | Inline_extractor | Tabular_extractor

text \<open>Python's truth value of an optional string: neither \<open>None\<close> nor empty.\<close>

definition truthy :: "string option \<Rightarrow> bool" where
  "truthy r = (case r of None \<Rightarrow> False | Some s \<Rightarrow> s \<noteq> [])"

text \<open>The second half of \<open>extract_ingredients_from_pdf\<close>: the two heuristics on the text.\<close>

definition extract_from_text :: "string \<Rightarrow> step list \<times> string option" where
  "extract_from_text text =
     (let ingredients = extract_inline_ingredients text in
      if truthy ingredients then ([Inline_extractor], ingredients)
      else let ingredients = extract_table_ingredients text in
        if truthy ingredients then ([Inline_extractor, Tabular_extractor], ingredients)
        else ([Inline_extractor, Tabular_extractor], None))"

definition extract_ingredients_from_pdf ::
  "('e, 'img) services \<Rightarrow> path \<Rightarrow> step list \<times> ('e + string option)" where
  "extract_ingredients_from_pdf sv path =
     (case extract_text_from_pdf sv path of
        Inl e \<Rightarrow> ([Native_text], Inl e)
      | Inr text \<Rightarrow>
          if length text < 40 then
            (case extract_text_with_ocr sv path of
               Inl e \<Rightarrow> ([Native_text, Ocr_text], Inl e)
             | Inr text' \<Rightarrow>
                 (case extract_from_text text' of
                    (steps, r) \<Rightarrow> ([Native_text, Ocr_text] @ steps, Inr r)))
          else
            (case extract_from_text text of
               (steps, r) \<Rightarrow> ([Native_text] @ steps, Inr r)))"

section \<open>Auxiliary notions for the proofs\<close>

text \<open>
  A string is collapsed when every whitespace character in it is a single space that is
  not followed by another whitespace character.
\<close>

fun collapsed :: "string \<Rightarrow> bool" where
  "collapsed [] = True"
| "collapsed [c] = (is_space c \<longrightarrow> c = CHR '' '')"
| "collapsed (a # b # r) = ((is_space a \<longrightarrow> a = CHR '' '' \<and> \<not> is_space b) \<and> collapsed (b # r))"


text \<open>
  The pattern matches at index \<open>i\<close> of the string: the matcher succeeds on the text
  from \<open>i\<close> on, with the character before \<open>i\<close> as its left context.
\<close>

definition matches_at :: "flag list \<Rightarrow> pattern \<Rightarrow> string \<Rightarrow> nat \<Rightarrow> bool" where
  "matches_at fl p s i = (i \<le> length s \<and> match_here fl p (prev_after None s i) (drop i s) \<noteq> None)"


text \<open>A pattern that is a plain sequence of single characters, such as a stop marker.\<close>

fun is_One :: "item \<Rightarrow> bool" where
  "is_One (One c) = True"
| "is_One _ = False"

definition newline :: char where
  "newline = CHR 0x0A"

text \<open>The part of a candidate window that the marker loop of the inline extractor keeps.\<close>

definition kept :: "string \<Rightarrow> string" where
  "kept after = take (cut_loop STOP_MARKERS after (length after)) after"

text \<open>
  The text the orchestrator hands to the heuristics: the native text, or the OCR text
  when the native text is shorter than 40 characters; a failure of a service otherwise.
\<close>

definition recovered_text :: "('e, 'img) services \<Rightarrow> path \<Rightarrow> 'e + string" where
  "recovered_text sv path =
     (case extract_text_from_pdf sv path of
        Inl e \<Rightarrow> Inl e
      | Inr text \<Rightarrow> if length text < 40 then extract_text_with_ocr sv path else Inr text)"

text \<open>
  The wordings, in lower case, that the four label patterns accept as a label, and the
  test that a text has, from index \<open>i\<close> on, one of these wordings in any letter case,
  then any whitespace, then a colon or a hyphen.
\<close>

definition label_wordings :: "string list" where
  "label_wordings =
    [''ingredient'', ''ingredients'',
     ''ingredients/ingr'' @ [CHR 0xE9] @ ''dients'', ''ingredients/ingredients'',
     ''ingredientes'', ''ingredientes/ingredients'']"

definition sep_follows :: "string \<Rightarrow> bool" where
  "sep_follows s =
     (case dropWhile is_space s of [] \<Rightarrow> False | c # _ \<Rightarrow> c = CHR '':'' \<or> c = CHR ''-'')"

definition labelled_at :: "string \<Rightarrow> nat \<Rightarrow> bool" where
  "labelled_at s i =
     (\<exists>w \<in> set label_wordings.
        map lower (take (length w) (drop i s)) = w \<and> sep_follows (drop (i + length w) s))"

section \<open>Properties of the normalizer\<close>

lemma is_space_blank: "is_space (CHR '' '')"
  by (simp add: is_space_def)

lemma dropWhile_space_head: "dropWhile is_space cs = x # xs \<Longrightarrow> \<not> is_space x"
  by (metis dropWhile_eq_Cons_conv)

lemma collapsed_sub_spaces: "collapsed (sub_spaces s)"
proof (induction s rule: sub_spaces.induct)
  case 1
  then show ?case by simp
next
  case (2 c cs)
  show ?case
  proof (cases "is_space c")
    case True
    with 2 have ih: "collapsed (sub_spaces (dropWhile is_space cs))" by simp
    show ?thesis
    proof (cases "dropWhile is_space cs")
      case Nil
      show ?thesis using True by (simp add: Nil)
    next
      case (Cons x xs)
      then have nx: "\<not> is_space x" by (rule dropWhile_space_head)
      have "collapsed (x # sub_spaces xs)" using ih nx by (simp add: Cons)
      then show ?thesis using True nx by (simp add: Cons)
    qed
  next
    case False
    with 2 have ih: "collapsed (sub_spaces cs)" by simp
    show ?thesis
    proof (cases cs)
      case Nil
      with False show ?thesis by simp
    next
      case (Cons x xs)
      with False ih show ?thesis by (cases "is_space x") simp_all
    qed
  qed
qed

lemma sub_spaces_collapsed: "collapsed s \<Longrightarrow> sub_spaces s = s"
proof (induction s rule: collapsed.induct)
  case 1
  then show ?case by simp
next
  case (2 c)
  then show ?case by simp
next
  case (3 a b r)
  then show ?case by (cases "is_space a") simp_all
qed

lemma collapsed_tl: "collapsed (a # s) \<Longrightarrow> collapsed s"
  by (cases s) simp_all

lemma collapsed_dropWhile: "collapsed s \<Longrightarrow> collapsed (dropWhile P s)"
  by (induction s) (auto dest: collapsed_tl)

lemma collapsed_append_left: "collapsed (xs @ ys) \<Longrightarrow> collapsed xs"
proof (induction xs rule: collapsed.induct)
  case 1
  then show ?case by simp
next
  case (2 c)
  then show ?case by (cases ys) simp_all
next
  case (3 a b r)
  then show ?case by simp
qed

lemma collapsed_strip_chars: "collapsed s \<Longrightarrow> collapsed (strip_chars cs s)"
proof -
  assume a: "collapsed s"
  let ?d = "dropWhile (\<lambda>c. c \<in> set cs) s"
  have "?d = rev (dropWhile (\<lambda>c. c \<in> set cs) (rev ?d)) @ rev (takeWhile (\<lambda>c. c \<in> set cs) (rev ?d))"
    by (metis rev_append rev_rev_ident takeWhile_dropWhile_id)
  moreover have "collapsed ?d" using a by (rule collapsed_dropWhile)
  ultimately show ?thesis
    unfolding strip_chars_def by (metis collapsed_append_left)
qed

lemma dropWhile_id_hd: "xs \<noteq> [] \<Longrightarrow> \<not> P (hd xs) \<Longrightarrow> dropWhile P xs = xs"
  by (cases xs) simp_all

lemma rev_dropWhile_rev_prefix:
  "d = rev (dropWhile P (rev d)) @ rev (takeWhile P (rev d))"
proof -
  have "rev d = takeWhile P (rev d) @ dropWhile P (rev d)" by simp
  then have "rev (rev d) = rev (takeWhile P (rev d) @ dropWhile P (rev d))" by (rule arg_cong)
  then show ?thesis by (simp only: rev_rev_ident rev_append)
qed

lemma dropWhile_trimmed:
  "dropWhile P (rev (dropWhile P (rev (dropWhile P s)))) = rev (dropWhile P (rev (dropWhile P s)))"
proof (cases "rev (dropWhile P (rev (dropWhile P s))) = []")
  case True
  show ?thesis unfolding True by simp
next
  case False
  define d where "d = dropWhile P s"
  define t where "t = rev (dropWhile P (rev d))"
  from False have tn: "t \<noteq> []" by (simp add: t_def d_def)
  have "d = t @ rev (takeWhile P (rev d))"
    unfolding t_def by (rule rev_dropWhile_rev_prefix)
  then have hd_eq: "hd d = hd t" and dn: "d \<noteq> []" using tn
    by (metis hd_append2, metis append_is_Nil_conv)
  from dn have "\<not> P (hd d)" unfolding d_def by (rule hd_dropWhile)
  with hd_eq have "\<not> P (hd t)" by simp
  with tn have "dropWhile P t = t" by (rule dropWhile_id_hd)
  then show ?thesis by (simp add: t_def d_def)
qed

lemma strip_chars_idem: "strip_chars cs (strip_chars cs s) = strip_chars cs s"
  unfolding strip_chars_def by (simp only: dropWhile_trimmed rev_rev_ident dropWhile_idem)

lemma strip_idem: "strip (strip s) = strip s"
  unfolding strip_def by (simp only: dropWhile_trimmed rev_rev_ident dropWhile_idem)

lemma clean_twice:
  "clean_ingredients_string (clean_ingredients_string s) = clean_ingredients_string s"
proof -
  have "collapsed (strip_chars clean_chars (sub_spaces s))"
    by (rule collapsed_strip_chars) (rule collapsed_sub_spaces)
  then have "sub_spaces (strip_chars clean_chars (sub_spaces s)) = strip_chars clean_chars (sub_spaces s)"
    by (rule sub_spaces_collapsed)
  then show ?thesis
    unfolding clean_ingredients_string_def by (simp add: strip_chars_idem)
qed

text \<open>
  C9: normalization is idempotent. For every string \<open>s\<close>, normalizing the normalized
  string gives the normalized string again.
\<close>

theorem clean_idempotent:
  "clean_ingredients_string (clean_ingredients_string s) = clean_ingredients_string s"
  by (rule clean_twice)

section \<open>Properties of the search\<close>

declare search_from.simps [simp del]

lemma search_from_hit:
  "match_here fl p prev s = Some (ms, e) \<Longrightarrow>
   search_from fl p pos prev s =
     Some \<lparr>m_start = pos, m_end = pos + length s - length e,
           m_marks = map (\<lambda>m. pos + length s - length m) ms\<rparr>"
  by (subst search_from.simps) simp

lemma search_from_Nil_miss:
  "match_here fl p prev [] = None \<Longrightarrow> search_from fl p pos prev [] = None"
  by (subst search_from.simps) simp

lemma search_from_Cons_miss:
  "match_here fl p prev (x # xs) = None \<Longrightarrow>
   search_from fl p pos prev (x # xs) = search_from fl p (Suc pos) (Some x) xs"
  by (subst search_from.simps) simp

lemma prev_after_Cons_Suc: "prev_after prev (x # xs) (Suc j) = prev_after (Some x) xs j"
  by (cases j) (simp_all add: prev_after_def)

lemma prev_after_0: "prev_after prev s 0 = prev"
  by (simp add: prev_after_def)

lemma search_from_None_iff:
  "search_from fl p pos prev s = None \<longleftrightarrow>
   (\<forall>i \<le> length s. match_here fl p (prev_after prev s i) (drop i s) = None)"
proof (induction s arbitrary: pos prev)
  case Nil
  show ?case
  proof (cases "match_here fl p prev []")
    case None
    then show ?thesis by (simp add: search_from_Nil_miss prev_after_0)
  next
    case (Some r)
    obtain ms e where "r = (ms, e)" by (cases r)
    with Some show ?thesis by (simp add: search_from_hit prev_after_0)
  qed
next
  case (Cons x xs)
  show ?case
  proof (cases "match_here fl p prev (x # xs)")
    case None
    have "(\<forall>i \<le> length (x # xs). match_here fl p (prev_after prev (x # xs) i) (drop i (x # xs)) = None)
          \<longleftrightarrow> (\<forall>j \<le> length xs. match_here fl p (prev_after (Some x) xs j) (drop j xs) = None)"
    proof
      assume a: "\<forall>i \<le> length (x # xs). match_here fl p (prev_after prev (x # xs) i) (drop i (x # xs)) = None"
      show "\<forall>j \<le> length xs. match_here fl p (prev_after (Some x) xs j) (drop j xs) = None"
      proof (intro allI impI)
        fix j assume "j \<le> length xs"
        then have "Suc j \<le> length (x # xs)" by simp
        with a have "match_here fl p (prev_after prev (x # xs) (Suc j)) (drop (Suc j) (x # xs)) = None"
          by blast
        then show "match_here fl p (prev_after (Some x) xs j) (drop j xs) = None"
          by (simp add: prev_after_Cons_Suc)
      qed
    next
      assume a: "\<forall>j \<le> length xs. match_here fl p (prev_after (Some x) xs j) (drop j xs) = None"
      show "\<forall>i \<le> length (x # xs). match_here fl p (prev_after prev (x # xs) i) (drop i (x # xs)) = None"
      proof (intro allI impI)
        fix i assume i: "i \<le> length (x # xs)"
        show "match_here fl p (prev_after prev (x # xs) i) (drop i (x # xs)) = None"
        proof (cases i)
          case 0
          with None show ?thesis by (simp add: prev_after_0)
        next
          case (Suc j)
          with i a show ?thesis by (simp add: prev_after_Cons_Suc)
        qed
      qed
    qed
    with None Cons.IH [of "Suc pos" "Some x"] show ?thesis
      by (simp add: search_from_Cons_miss)
  next
    case (Some r)
    obtain ms e where "r = (ms, e)" by (cases r)
    with Some have "search_from fl p pos prev (x # xs) \<noteq> None"
      by (simp add: search_from_hit)
    moreover from Some have "\<not> (\<forall>i \<le> length (x # xs). match_here fl p (prev_after prev (x # xs) i) (drop i (x # xs)) = None)"
      by (auto simp: prev_after_0 intro!: exI [of _ 0])
    ultimately show ?thesis by blast
  qed
qed

lemma search_from_Some_start:
  "search_from fl p pos prev s = Some m \<Longrightarrow>
   \<exists>i \<le> length s. m_start m = pos + i
      \<and> match_here fl p (prev_after prev s i) (drop i s) \<noteq> None
      \<and> (\<forall>j < i. match_here fl p (prev_after prev s j) (drop j s) = None)"
proof (induction s arbitrary: pos prev)
  case Nil
  show ?case
  proof (cases "match_here fl p prev []")
    case None
    with Nil show ?thesis by (simp add: search_from_Nil_miss)
  next
    case (Some r)
    obtain ms e where "r = (ms, e)" by (cases r)
    with Some Nil show ?thesis by (auto simp: search_from_hit prev_after_0)
  qed
next
  case (Cons x xs)
  show ?case
  proof (cases "match_here fl p prev (x # xs)")
    case None
    with Cons.prems have "search_from fl p (Suc pos) (Some x) xs = Some m"
      by (simp add: search_from_Cons_miss)
    from Cons.IH [OF this] obtain j where j: "j \<le> length xs" "m_start m = Suc pos + j"
      "match_here fl p (prev_after (Some x) xs j) (drop j xs) \<noteq> None"
      "\<forall>k < j. match_here fl p (prev_after (Some x) xs k) (drop k xs) = None"
      by blast
    have "\<forall>k < Suc j. match_here fl p (prev_after prev (x # xs) k) (drop k (x # xs)) = None"
    proof (intro allI impI)
      fix k assume k: "k < Suc j"
      show "match_here fl p (prev_after prev (x # xs) k) (drop k (x # xs)) = None"
      proof (cases k)
        case 0
        with None show ?thesis by (simp add: prev_after_0)
      next
        case (Suc k')
        with k j(4) show ?thesis by (simp add: prev_after_Cons_Suc)
      qed
    qed
    with j(1,2,3) show ?thesis
      by (intro exI [of _ "Suc j"]) (simp add: prev_after_Cons_Suc)
  next
    case (Some r)
    obtain ms e where "r = (ms, e)" by (cases r)
    with Some Cons.prems have "m_start m = pos" by (auto simp: search_from_hit)
    with Some show ?thesis by (intro exI [of _ 0]) (simp add: prev_after_0)
  qed
qed

lemma re_search_None_iff:
  "re_search p s fl = None \<longleftrightarrow> (\<forall>i. \<not> matches_at fl p s i)"
proof -
  have "re_search p s fl = None \<longleftrightarrow>
        (\<forall>i \<le> length s. match_here fl p (prev_after None s i) (drop i s) = None)"
    unfolding re_search_def by (rule search_from_None_iff)
  also have "\<dots> \<longleftrightarrow> (\<forall>i. \<not> matches_at fl p s i)"
    unfolding matches_at_def by (simp only: de_Morgan_conj not_not imp_conv_disj)
  finally show ?thesis .
qed

lemma re_search_Some_leftmost:
  assumes "re_search p s fl = Some m"
  shows "matches_at fl p s (m_start m)" and "\<And>j. matches_at fl p s j \<Longrightarrow> m_start m \<le> j"
proof -
  from assms obtain i where i: "i \<le> length s" "m_start m = i"
    "match_here fl p (prev_after None s i) (drop i s) \<noteq> None"
    "\<forall>j < i. match_here fl p (prev_after None s j) (drop j s) = None"
    unfolding re_search_def by (auto dest: search_from_Some_start)
  then show "matches_at fl p s (m_start m)" by (simp add: matches_at_def)
  fix j assume "matches_at fl p s j"
  with i(4) have "\<not> j < i" by (auto simp: matches_at_def)
  with i(2) show "m_start m \<le> j" by simp
qed

section \<open>Properties of the marker loop\<close>

lemma cut_loop_le: "cut_loop sms after c \<le> c"
proof (induction sms arbitrary: c)
  case Nil
  show ?case by simp
next
  case (Cons sm sms)
  show ?case
  proof (cases "re_search sm after [IGNORECASE]")
    case None
    then show ?thesis using Cons [of c] by simp
  next
    case (Some m)
    show ?thesis
    proof (cases "m_start m < c")
      case True
      with Some Cons [of "m_start m"] show ?thesis by simp
    next
      case False
      with Some Cons [of c] show ?thesis by simp
    qed
  qed
qed

lemma cut_loop_le_start:
  "sm \<in> set sms \<Longrightarrow> re_search sm after [IGNORECASE] = Some m \<Longrightarrow>
   cut_loop sms after c \<le> m_start m"
proof (induction sms arbitrary: c)
  case Nil
  then show ?case by simp
next
  case (Cons a sms)
  show ?case
  proof (cases "sm = a")
    case True
    show ?thesis
    proof (cases "m_start m < c")
      case lt: True
      have "cut_loop sms after (m_start m) \<le> m_start m" by (rule cut_loop_le)
      with True lt Cons.prems(2) show ?thesis by simp
    next
      case ge: False
      have "cut_loop sms after c \<le> c" by (rule cut_loop_le)
      with True ge Cons.prems(2) show ?thesis by simp
    qed
  next
    case False
    with Cons.prems have mem: "sm \<in> set sms" by simp
    show ?thesis
    proof (cases "re_search a after [IGNORECASE]")
      case None
      with Cons.IH [OF mem Cons.prems(2), of c] show ?thesis by simp
    next
      case (Some m')
      show ?thesis
      proof (cases "m_start m' < c")
        case True
        with Some Cons.IH [OF mem Cons.prems(2), of "m_start m'"] show ?thesis by simp
      next
        case False
        with Some Cons.IH [OF mem Cons.prems(2), of c] show ?thesis by simp
      qed
    qed
  qed
qed

lemma cut_loop_cases:
  "cut_loop sms after c = c \<or>
   (\<exists>sm \<in> set sms. \<exists>m. re_search sm after [IGNORECASE] = Some m
       \<and> m_start m = cut_loop sms after c)"
proof (induction sms arbitrary: c)
  case Nil
  show ?case by simp
next
  case (Cons a sms)
  show ?case
  proof (cases "re_search a after [IGNORECASE]")
    case None
    with Cons [of c] show ?thesis by auto
  next
    case (Some m')
    show ?thesis
    proof (cases "m_start m' < c")
      case True
      with Some Cons [of "m_start m'"] show ?thesis by auto
    next
      case False
      with Some Cons [of c] show ?thesis by auto
    qed
  qed
qed

lemma cut_loop_mono_set:
  assumes "set ms \<subseteq> set sms"
  shows "cut_loop sms after c \<le> cut_loop ms after c"
proof -
  from cut_loop_cases [of ms after c] show ?thesis
  proof
    assume "cut_loop ms after c = c"
    then show ?thesis by (simp add: cut_loop_le)
  next
    assume "\<exists>sm \<in> set ms. \<exists>m. re_search sm after [IGNORECASE] = Some m
       \<and> m_start m = cut_loop ms after c"
    then obtain sm m where "sm \<in> set ms" "re_search sm after [IGNORECASE] = Some m"
      "m_start m = cut_loop ms after c" by blast
    with assms cut_loop_le_start [of sm sms after m c] show ?thesis by auto
  qed
qed

lemma cut_loop_order_free:
  "set ms = set sms \<Longrightarrow> cut_loop ms after c = cut_loop sms after c"
  by (simp add: cut_loop_mono_set order_antisym)

lemma cut_loop_leftmost:
  assumes "sm \<in> set sms" and "matches_at [IGNORECASE] sm after i"
  shows "cut_loop sms after c \<le> i"
proof -
  from assms(2) have "re_search sm after [IGNORECASE] \<noteq> None"
    by (auto simp: re_search_None_iff)
  then obtain m where m: "re_search sm after [IGNORECASE] = Some m" by blast
  then have "m_start m \<le> i" using assms(2) by (rule re_search_Some_leftmost(2))
  moreover have "cut_loop sms after c \<le> m_start m" using assms(1) m by (rule cut_loop_le_start)
  ultimately show ?thesis by simp
qed

lemma cut_loop_at_match:
  "cut_loop sms after c = c \<or> (\<exists>sm \<in> set sms. matches_at [IGNORECASE] sm after (cut_loop sms after c))"
proof -
  from cut_loop_cases [of sms after c] show ?thesis
  proof
    assume "cut_loop sms after c = c"
    then show ?thesis by simp
  next
    assume "\<exists>sm \<in> set sms. \<exists>m. re_search sm after [IGNORECASE] = Some m
       \<and> m_start m = cut_loop sms after c"
    then obtain sm m where *: "sm \<in> set sms" "re_search sm after [IGNORECASE] = Some m"
      "m_start m = cut_loop sms after c" by blast
    from *(2) have "matches_at [IGNORECASE] sm after (m_start m)" by (rule re_search_Some_leftmost(1))
    with *(1,3) show ?thesis by auto
  qed
qed

section \<open>Markers begin with a newline\<close>

lemma lower_newline: "lower c = newline \<Longrightarrow> c = newline"
proof -
  assume a: "lower c = newline"
  let ?n = "of_char c :: nat"
  show ?thesis
  proof (cases "(65 \<le> ?n \<and> ?n \<le> 90) \<or> (192 \<le> ?n \<and> ?n \<le> 214) \<or> (216 \<le> ?n \<and> ?n \<le> 222)")
    case True
    with a have "char_of (?n + 32) = newline" by (simp add: lower_def Let_def)
    then have "(of_char (char_of (?n + 32) :: char) :: nat) = of_char newline" by simp
    then have "(?n + 32) mod 256 = 10" by (simp add: newline_def)
    with True show ?thesis by (simp add: mod_if split: if_splits)
  next
    case False
    with a show ?thesis by (simp add: lower_def Let_def)
  qed
qed

lemma cls_ok_newline: "cls_ok fl (Lit newline) c \<Longrightarrow> c = newline"
proof (cases "IGNORECASE \<in> set fl")
  case True
  assume "cls_ok fl (Lit newline) c"
  with True have "lower c = lower newline" by simp
  moreover have "lower newline = newline" by (simp add: lower_def newline_def)
  ultimately show ?thesis by (simp add: lower_newline)
next
  case False
  assume "cls_ok fl (Lit newline) c"
  with False show ?thesis by simp
qed

lemma matches_at_newline:
  assumes "matches_at fl (One (Lit newline) # r) s i"
  shows "i < length s \<and> s ! i = newline"
proof -
  from assms have i: "i \<le> length s"
    and m: "match_here fl (One (Lit newline) # r) (prev_after None s i) (drop i s) \<noteq> None"
    by (simp_all add: matches_at_def)
  from m obtain x xs where d: "drop i s = x # xs" and ok: "cls_ok fl (Lit newline) x"
    by (cases "drop i s") (auto split: if_splits)
  from d have lt: "i < length s" by (metis drop_eq_Nil2 list.simps(3) not_le)
  from d lt have "s ! i = x" by (metis Cons_nth_drop_Suc list.inject)
  with ok lt show ?thesis by (simp add: cls_ok_newline)
qed

lemma STOP_MARKERS_newline: "sm \<in> set STOP_MARKERS \<Longrightarrow> \<exists>r. sm = One (Lit newline) # r"
  by (auto simp: STOP_MARKERS_def lits_def newline_def)

lemma stop_pats_newline: "sm \<in> set stop_pats \<Longrightarrow> \<exists>r. sm = One (Lit newline) # r"
  by (auto simp: stop_pats_def lits_def newline_def)

section \<open>The inline extractor cuts at the leftmost marker\<close>

lemma match_here_literal_take:
  "list_all is_One p \<Longrightarrow> match_here fl p prev (take n s) \<noteq> None \<Longrightarrow>
   match_here fl p prev s \<noteq> None"
proof (induction p arbitrary: prev s n)
  case Nil
  show ?case by simp
next
  case (Cons it p)
  from Cons.prems(1) obtain c where it: "it = One c" and rest: "list_all is_One p"
    by (cases it) simp_all
  from Cons.prems(2) it obtain x xs where tk: "take n s = x # xs"
    and ok: "cls_ok fl c x" and m: "match_here fl p (Some x) xs \<noteq> None"
    by (cases "take n s") (auto split: if_splits)
  from tk obtain n' s' where n: "n = Suc n'" and s: "s = x # s'" and xs: "xs = take n' s'"
    by (cases n; cases s) auto
  from m xs have "match_here fl p (Some x) (take n' s') \<noteq> None" by simp
  with rest have "match_here fl p (Some x) s' \<noteq> None" by (rule Cons.IH)
  with it ok s show ?case by simp
qed

lemma matches_at_literal_take:
  assumes lit: "list_all is_One p" and ne: "p \<noteq> []"
    and m: "matches_at fl p (take n s) i"
  shows "matches_at fl p s i \<and> i < n"
proof -
  from m have i: "i \<le> length (take n s)"
    and mh: "match_here fl p (prev_after None (take n s) i) (drop i (take n s)) \<noteq> None"
    by (simp_all add: matches_at_def)
  from lit ne obtain c r where p: "p = One c # r" by (cases p; cases "hd p") auto
  from mh p have "drop i (take n s) \<noteq> []" by auto
  then have "i < length (take n s)" by (simp only: drop_eq_Nil not_le)
  then have "i < min (length s) n" by (simp only: length_take)
  then have i_n: "i < n" and i_s: "i < length s" by (simp_all only: min_less_iff_conj)
  have pa: "prev_after None (take n s) i = prev_after None s i"
    using i_n by (simp add: prev_after_def)
  have "drop i (take n s) = take (n - i) (drop i s)" by (simp add: drop_take)
  with mh pa have "match_here fl p (prev_after None s i) (take (n - i) (drop i s)) \<noteq> None"
    by simp
  with lit have "match_here fl p (prev_after None s i) (drop i s) \<noteq> None"
    by (rule match_here_literal_take)
  with i_s i_n show ?thesis by (simp add: matches_at_def)
qed

lemma STOP_MARKERS_literal: "sm \<in> set STOP_MARKERS \<Longrightarrow> list_all is_One sm \<and> sm \<noteq> []"
  by (auto simp: STOP_MARKERS_def lits_def)

lemma kept_has_no_marker:
  assumes "sm \<in> set STOP_MARKERS"
  shows "re_search sm (kept after) [IGNORECASE] = None"
proof -
  let ?c = "cut_loop STOP_MARKERS after (length after)"
  have "\<not> matches_at [IGNORECASE] sm (take ?c after) i" for i
  proof
    assume "matches_at [IGNORECASE] sm (take ?c after) i"
    moreover from assms have "list_all is_One sm" "sm \<noteq> []"
      by (simp_all add: STOP_MARKERS_literal)
    ultimately have "matches_at [IGNORECASE] sm after i \<and> i < ?c"
      using matches_at_literal_take [of sm "[IGNORECASE]" ?c after i] by blast
    then have mi: "matches_at [IGNORECASE] sm after i" and lt: "i < ?c" by simp_all
    from assms mi have "?c \<le> i" by (rule cut_loop_leftmost)
    with lt show False by simp
  qed
  then show ?thesis by (simp add: re_search_None_iff kept_def)
qed

lemma inline_loop_Some:
  "inline_loop pats text = Some r \<Longrightarrow>
   \<exists>pre pat post m. pats = pre @ pat # post
     \<and> re_search pat text [IGNORECASE, DOTALL] = Some m
     \<and> r = clean_ingredients_string (kept (group1 text m)) \<and> r \<noteq> []
     \<and> (\<forall>q \<in> set pre. \<forall>m'. re_search q text [IGNORECASE, DOTALL] = Some m'
           \<longrightarrow> clean_ingredients_string (kept (group1 text m')) = [])"
proof (induction pats)
  case Nil
  then show ?case by simp
next
  case (Cons pat pats)
  show ?case
  proof (cases "re_search pat text [IGNORECASE, DOTALL]")
    case None
    with Cons.prems have "inline_loop pats text = Some r" by simp
    from Cons.IH [OF this] obtain pre p post m where *: "pats = pre @ p # post"
      "re_search p text [IGNORECASE, DOTALL] = Some m"
      "r = clean_ingredients_string (kept (group1 text m))" "r \<noteq> []"
      "\<forall>q \<in> set pre. \<forall>m'. re_search q text [IGNORECASE, DOTALL] = Some m'
           \<longrightarrow> clean_ingredients_string (kept (group1 text m')) = []"
      by blast
    from * None show ?thesis
      by (intro exI [of _ "pat # pre"] exI [of _ p] exI [of _ post] exI [of _ m]) simp
  next
    case (Some m)
    show ?thesis
    proof (cases "clean_ingredients_string (kept (group1 text m)) = []")
      case True
      with Some Cons.prems have "inline_loop pats text = Some r"
        by (simp add: kept_def Let_def)
      from Cons.IH [OF this] obtain pre p post m2 where *: "pats = pre @ p # post"
        "re_search p text [IGNORECASE, DOTALL] = Some m2"
        "r = clean_ingredients_string (kept (group1 text m2))" "r \<noteq> []"
        "\<forall>q \<in> set pre. \<forall>m'. re_search q text [IGNORECASE, DOTALL] = Some m'
           \<longrightarrow> clean_ingredients_string (kept (group1 text m')) = []"
        by blast
      from * Some True show ?thesis
        by (intro exI [of _ "pat # pre"] exI [of _ p] exI [of _ post] exI [of _ m2]) simp
    next
      case False
      with Some Cons.prems have "r = clean_ingredients_string (kept (group1 text m))"
        by (simp add: kept_def Let_def)
      with Some False show ?thesis
        by (intro exI [of _ "[]"] exI [of _ pat] exI [of _ pats] exI [of _ m]) simp
    qed
  qed
qed

section \<open>Properties of the matcher\<close>

lemma try_down_Some:
  "try_down f lo k = Some r \<Longrightarrow> \<exists>j \<le> k. lo \<le> j \<and> f j = Some r"
proof (induction k)
  case 0
  then show ?case by (auto split: if_splits)
next
  case (Suc k)
  show ?case
  proof (cases "f (Suc k)")
    case None
    with Suc.prems have "try_down f lo k = Some r" by (simp split: if_splits)
    from Suc.IH [OF this] obtain j where "j \<le> k" "lo \<le> j" "f j = Some r" by blast
    then show ?thesis by (intro exI [of _ j]) simp
  next
    case (Some r')
    with Suc.prems have "r' = r" "\<not> Suc k < lo" by (simp_all split: if_splits)
    with Some show ?thesis by (intro exI [of _ "Suc k"]) simp
  qed
qed

lemma match_here_suffix:
  "match_here fl p prev s = Some (ms, e) \<Longrightarrow> \<exists>k \<le> length s. e = drop k s"
proof (induction p arbitrary: prev s ms e)
  case Nil
  then show ?case by (intro exI [of _ 0]) simp
next
  case (Cons it p)
  show ?case
  proof (cases it)
    case (One c)
    with Cons.prems obtain x xs where s: "s = x # xs"
      and m: "match_here fl p (Some x) xs = Some (ms, e)"
      by (cases s) (auto split: if_splits)
    from Cons.IH [OF m] obtain k where "k \<le> length xs" "e = drop k xs" by blast
    with s show ?thesis by (intro exI [of _ "Suc k"]) simp
  next
    case (Rep c lo hi)
    with Cons.prems obtain n where
      "try_down (\<lambda>k. match_here fl p (prev_after prev s k) (drop k s)) lo n = Some (ms, e)"
      by (simp add: Let_def)
    from try_down_Some [OF this] obtain j where
      m: "match_here fl p (prev_after prev s j) (drop j s) = Some (ms, e)" by blast
    from Cons.IH [OF m] obtain k where k: "k \<le> length (drop j s)" "e = drop k (drop j s)"
      by blast
    show ?thesis
    proof (cases "j \<le> length s")
      case True
      with k show ?thesis by (intro exI [of _ "k + j"]) simp
    next
      case False
      with k show ?thesis by (intro exI [of _ "length s"]) simp
    qed
  next
    case WordB
    with Cons.prems have "match_here fl p prev s = Some (ms, e)" by (simp split: if_splits)
    then show ?thesis by (rule Cons.IH)
  next
    case Bol
    with Cons.prems have "match_here fl p prev s = Some (ms, e)" by (simp split: if_splits)
    then show ?thesis by (rule Cons.IH)
  next
    case Mark
    with Cons.prems obtain ms' where "match_here fl p prev s = Some (ms', e)"
      by (auto split: option.splits)
    then show ?thesis by (rule Cons.IH)
  qed
qed

lemma search_from_Bol: "search_from fl (Bol # r) pos (Some c) s = None"
proof (induction s arbitrary: pos c)
  case Nil
  show ?case by (simp add: search_from_Nil_miss)
next
  case (Cons x xs)
  have "match_here fl (Bol # r) (Some c) (x # xs) = None" by simp
  then show ?case using Cons [of "Suc pos" x] by (simp add: search_from_Cons_miss)
qed

lemma strip_row_prefix_eq:
  "strip_row_prefix line =
     (case match_here [] row_prefix None line of None \<Rightarrow> line | Some (ms, e) \<Rightarrow> e)"
proof (cases "match_here [] row_prefix None line")
  case None
  have "re_search row_prefix line [] = None"
  proof (cases line)
    case Nil
    with None show ?thesis by (simp add: re_search_def search_from_Nil_miss)
  next
    case (Cons x xs)
    with None have "search_from [] row_prefix 0 None line
        = search_from [] row_prefix (Suc 0) (Some x) xs"
      by (simp add: search_from_Cons_miss)
    then show ?thesis by (simp add: re_search_def row_prefix_def search_from_Bol)
  qed
  with None show ?thesis by (simp add: strip_row_prefix_def)
next
  case (Some r)
  obtain ms e where r: "r = (ms, e)" by (cases r)
  from Some r obtain k where k: "k \<le> length line" "e = drop k line"
    by (auto dest: match_here_suffix)
  from Some r have "re_search row_prefix line [] =
      Some \<lparr>m_start = 0, m_end = length line - length e,
            m_marks = map (\<lambda>m. length line - length m) ms\<rparr>"
    by (simp add: re_search_def search_from_hit)
  with Some r k show ?thesis by (simp add: strip_row_prefix_def)
qed

section \<open>Properties of the tabular extractor\<close>

lemma first_occurrences_Cons:
  "map ((!) (n # ns)) (filter (\<lambda>i. (n # ns) ! i \<notin> A \<union> set (take i (n # ns))) [0..<length (n # ns)])
   = (if n \<in> A then [] else [n])
     @ map ((!) ns) (filter (\<lambda>i. ns ! i \<notin> insert n A \<union> set (take i ns)) [0..<length ns])"
proof -
  have "[0..<length (n # ns)] = 0 # map Suc [0..<length ns]"
    by (simp add: upt_conv_Cons map_Suc_upt del: upt_Suc)
  then show ?thesis
    by (simp add: filter_map comp_def conj_ac del: upt_Suc)
qed

lemma unique_loop_first_occurrences:
  "unique_loop ns (set u) u
   = u @ map ((!) ns) (filter (\<lambda>i. ns ! i \<notin> set u \<union> set (take i ns)) [0..<length ns])"
proof (induction ns arbitrary: u)
  case Nil
  show ?case by simp
next
  case (Cons n ns)
  show ?case
  proof (cases "n \<in> set u")
    case True
    then have "insert n (set u) = set u" by auto
    with True Cons [of u] show ?thesis
      by (simp only: first_occurrences_Cons unique_loop.simps) simp
  next
    case False
    have "set (u @ [n]) = insert n (set u)" by simp
    with False Cons [of "u @ [n]"] show ?thesis
      by (simp only: first_occurrences_Cons unique_loop.simps) simp
  qed
qed

lemma unique_loop_set: "set (unique_loop ns (set u) u) = set u \<union> set ns"
proof (induction ns arbitrary: u)
  case Nil
  show ?case by simp
next
  case (Cons n ns)
  show ?case
  proof (cases "n \<in> set u")
    case True
    with Cons [of u] show ?thesis by auto
  next
    case False
    have "set (u @ [n]) = insert n (set u)" by simp
    with False Cons [of "u @ [n]"] show ?thesis by auto
  qed
qed

lemma unique_loop_distinct: "distinct u \<Longrightarrow> distinct (unique_loop ns (set u) u)"
proof (induction ns arbitrary: u)
  case Nil
  then show ?case by simp
next
  case (Cons n ns)
  show ?case
  proof (cases "n \<in> set u")
    case True
    with Cons show ?thesis by simp
  next
    case False
    have s: "set (u @ [n]) = insert n (set u)" by simp
    from False Cons.prems have "distinct (u @ [n])" by simp
    then have "distinct (unique_loop ns (set (u @ [n])) (u @ [n]))" by (rule Cons.IH)
    with False s show ?thesis by simp
  qed
qed

section \<open>Results are absent or non-empty\<close>

lemma inline_result_normalized:
  assumes "extract_inline_ingredients text = Some r"
  shows "r \<noteq> [] \<and> clean_ingredients_string r = r"
proof -
  from assms have "inline_loop patterns text = Some r"
    by (simp add: extract_inline_ingredients_def split: if_splits)
  from inline_loop_Some [OF this] obtain m where
    "r = clean_ingredients_string (kept (group1 text m))" "r \<noteq> []" by blast
  then show ?thesis by (simp add: clean_twice)
qed

lemma extract_name_stripped: "extract_name_from_line line = Some name \<Longrightarrow> strip name = name"
  by (auto simp: extract_name_from_line_def Let_def strip_idem split: if_splits option.splits)

lemma row_loop_names:
  assumes "\<forall>n \<in> set acc. 3 \<le> length n \<and> strip n = n"
  shows "\<forall>n \<in> set (row_loop hpat ls acc). 3 \<le> length n \<and> strip n = n"
  using assms
proof (induction ls arbitrary: acc)
  case Nil
  then show ?case by simp
next
  case (Cons raw_line ls)
  show ?case
  proof (cases "row_loop hpat (raw_line # ls) acc = row_loop hpat ls acc")
    case True
    with Cons.IH [OF Cons.prems] show ?thesis by simp
  next
    case False
    then obtain name where n: "extract_name_from_line (strip raw_line) = Some name"
      "\<not> length name < 3"
      and eq: "row_loop hpat (raw_line # ls) acc = row_loop hpat ls (acc @ [name])"
      by (auto simp: Let_def split: if_splits option.splits)
    from n have "3 \<le> length name \<and> strip name = name" by (simp add: extract_name_stripped)
    with Cons.prems have "\<forall>n \<in> set (acc @ [name]). 3 \<le> length n \<and> strip n = n" by simp
    from Cons.IH [OF this] eq show ?thesis by simp
  qed
qed

lemma header_loop_names:
  assumes "\<forall>n \<in> set acc. 3 \<le> length n \<and> strip n = n"
  shows "\<forall>n \<in> set (header_loop hs text acc). 3 \<le> length n \<and> strip n = n"
  using assms
proof (induction hs arbitrary: acc)
  case Nil
  then show ?case by simp
next
  case (Cons hpat hs)
  show ?case
  proof (cases "re_search hpat text [IGNORECASE]")
    case None
    with Cons.IH [OF Cons.prems] show ?thesis by simp
  next
    case (Some m)
    let ?block = "drop (m_end m) text"
    let ?acc = "row_loop hpat
       (splitlines (take (cut_loop stop_pats ?block (length ?block)) ?block)) acc"
    from Cons.prems have "\<forall>n \<in> set ?acc. 3 \<le> length n \<and> strip n = n"
      by (rule row_loop_names)
    from Cons.IH [OF this] Some show ?thesis by (simp add: Let_def)
  qed
qed

lemma join_nonempty: "xs \<noteq> [] \<Longrightarrow> \<forall>x \<in> set xs. x \<noteq> [] \<Longrightarrow> join sep xs \<noteq> []"
  by (cases xs; cases "tl xs") auto

lemma table_result_shape:
  assumes "extract_table_ingredients text = Some r"
  shows "r \<noteq> [] \<and> (\<exists>u. u \<noteq> [] \<and> r = join '', '' u \<and> (\<forall>n \<in> set u. 3 \<le> length n \<and> strip n = n))"
proof -
  let ?names = "header_loop headers text []"
  let ?u = "unique_loop ?names {} []"
  from assms have ne: "?names \<noteq> []" and r: "r = join '', '' ?u"
    by (simp_all add: extract_table_ingredients_def Let_def split: if_splits)
  have s: "set ?u = set ?names" using unique_loop_set [of ?names "[]"] by simp
  with ne have une: "?u \<noteq> []" by (metis set_empty)
  have "\<forall>n \<in> set ?names. 3 \<le> length n \<and> strip n = n"
    by (rule header_loop_names) simp
  with s have all: "\<forall>n \<in> set ?u. 3 \<le> length n \<and> strip n = n" by simp
  then have "\<forall>n \<in> set ?u. n \<noteq> []" by auto
  with une have "join '', '' ?u \<noteq> []" by (rule join_nonempty)
  with r have 1: "r \<noteq> []" by simp
  from une r all
  have 2: "\<exists>u. u \<noteq> [] \<and> r = join '', '' u \<and> (\<forall>n \<in> set u. 3 \<le> length n \<and> strip n = n)"
    by (intro exI [of _ ?u] conjI)
  from 1 2 show ?thesis by (rule conjI)
qed

lemma extract_from_text_inline:
  "extract_inline_ingredients text = Some r \<Longrightarrow>
   extract_from_text text = ([Inline_extractor], Some r)"
  by (simp add: extract_from_text_def truthy_def inline_result_normalized)

lemma extract_from_text_table:
  assumes "extract_inline_ingredients text = None"
  shows "extract_from_text text
         = ([Inline_extractor, Tabular_extractor], extract_table_ingredients text)"
proof (cases "extract_table_ingredients text")
  case None
  with assms show ?thesis by (simp add: extract_from_text_def truthy_def)
next
  case (Some r)
  then have "r \<noteq> []" by (simp add: table_result_shape)
  with assms Some show ?thesis by (simp add: extract_from_text_def truthy_def)
qed

lemma orchestrator_on_recovered_text:
  assumes "recovered_text sv path = Inr text"
  shows "\<exists>pre. (pre = [Native_text] \<or> pre = [Native_text, Ocr_text])
    \<and> extract_ingredients_from_pdf sv path
        = (pre @ fst (extract_from_text text), Inr (snd (extract_from_text text)))"
proof (cases "extract_text_from_pdf sv path")
  case (Inl e)
  with assms show ?thesis by (simp add: recovered_text_def)
next
  case (Inr native)
  show ?thesis
  proof (cases "length native < 40")
    case True
    with Inr assms have "extract_text_with_ocr sv path = Inr text"
      by (simp add: recovered_text_def)
    with Inr True show ?thesis
      by (intro exI [of _ "[Native_text, Ocr_text]"])
         (simp add: extract_ingredients_from_pdf_def split: prod.splits)
  next
    case False
    with Inr assms have "text = native" by (simp add: recovered_text_def)
    with Inr False show ?thesis
      by (intro exI [of _ "[Native_text]"])
         (simp add: extract_ingredients_from_pdf_def split: prod.splits)
  qed
qed

section \<open>Properties of the orchestrator\<close>

lemma extract_from_text_nonempty:
  "extract_from_text text = (steps, Some r) \<Longrightarrow> r \<noteq> []"
  by (auto simp: extract_from_text_def truthy_def Let_def split: if_splits)

lemma extract_from_text_steps:
  "fst (extract_from_text text) = [Inline_extractor]
   \<or> fst (extract_from_text text) = [Inline_extractor, Tabular_extractor]"
  by (simp add: extract_from_text_def Let_def)

lemma orchestrator_result_nonempty:
  assumes "extract_ingredients_from_pdf sv path = (steps, Inr (Some r))"
  shows "r \<noteq> []"
proof -
  from assms obtain t st where "extract_from_text t = (st, Some r)"
    by (auto simp: extract_ingredients_from_pdf_def split: sum.splits if_splits prod.splits)
  then show ?thesis by (rule extract_from_text_nonempty)
qed


lemma steps_without_ocr: "Ocr_text \<notin> set (fst (extract_from_text t))"
  using extract_from_text_steps [of t] by auto

section \<open>The extractors on sample texts\<close>

lemma inline_on_lista_colon:
  "extract_inline_ingredients ''Lista de ingredientes: Aqua'' = Some ''Aqua''"
  by code_simp

lemma table_on_lista_colon:
  "extract_table_ingredients ''Lista de ingredientes: Aqua'' = Some '': Aqua''"
  by code_simp

lemma inline_on_lista_rows:
  "extract_inline_ingredients ''Lista de ingredientes\<newline>Aqua.'' = None"
  by code_simp

lemma table_on_lista_rows:
  "extract_table_ingredients ''Lista de ingredientes\<newline>Aqua.'' = Some ''Aqua.''"
  by code_simp

lemma inline_on_plain_label:
  "extract_inline_ingredients ''Ingredients: Aqua.'' = Some ''Aqua''"
  by code_simp

lemma both_absent:
  "extract_inline_ingredients ''Aqua'' = None \<and> extract_table_ingredients ''Aqua'' = None"
  by code_simp

text \<open>Rows on which the decimal rule, the \<open>c.s.p.\<close> rule and no rule applies.\<close>

lemma decimal_row:
  "strip ''Aqua 0.5'' \<noteq> [] \<and> strip_row_prefix ''Aqua 0.5'' = ''Aqua 0.5''
   \<and> re_search cas_number ''Aqua 0.5'' [] = None
   \<and> re_search decimal_quantity ''Aqua 0.5'' [] = Some \<lparr>m_start = 4, m_end = 8, m_marks = []\<rparr>
   \<and> strip (take 4 ''Aqua 0.5'') = ''Aqua''"
  by code_simp

lemma csp_row:
  "strip ''Aqua c.s.p. 100'' \<noteq> [] \<and> strip_row_prefix ''Aqua c.s.p. 100'' = ''Aqua c.s.p. 100''
   \<and> re_search cas_number ''Aqua c.s.p. 100'' [] = None
   \<and> re_search decimal_quantity ''Aqua c.s.p. 100'' [] = None
   \<and> re_search csp_marker ''Aqua c.s.p. 100'' [IGNORECASE]
       = Some \<lparr>m_start = 4, m_end = 11, m_marks = []\<rparr>
   \<and> strip (take 4 ''Aqua c.s.p. 100'') = ''Aqua''"
  by code_simp

lemma plain_row:
  "strip ''Talc'' \<noteq> [] \<and> strip_row_prefix ''Talc'' = ''Talc''
   \<and> re_search cas_number ''Talc'' [] = None
   \<and> re_search decimal_quantity ''Talc'' [] = None
   \<and> re_search csp_marker ''Talc'' [IGNORECASE] = None
   \<and> strip ''Talc'' = ''Talc''"
  by code_simp


text \<open>Windows with a marker's wording in the middle of a line and at the start of one.\<close>

lemma midline_www:
  "\<forall>sm \<in> set STOP_MARKERS. re_search sm ''Aqua www.x\<newline>Talc'' [IGNORECASE] = None"
  by code_simp

lemma midline_total:
  "\<forall>sm \<in> set stop_pats. re_search sm ''Aqua Total\<newline>Talc'' [IGNORECASE] = None"
  by code_simp

lemma line_start_www:
  "cut_loop STOP_MARKERS ''Aqua\<newline>www.x'' (length ''Aqua\<newline>www.x'') = 4"
  by code_simp

text \<open>A label with a hyphen after it, and a label with a hyphen elsewhere in the text.\<close>

lemma inline_on_hyphen_label:
  "extract_inline_ingredients ''INGREDIENTES - Aqua'' = Some ''Aqua''"
  by code_simp

lemma no_label_before_hyphen:
  "\<forall>i \<in> set [0..<Suc (length ''Ingredients PEG-40'')].
     \<not> labelled_at ''Ingredients PEG-40'' i"
  by code_simp

lemma inline_without_separator:
  "extract_inline_ingredients ''Ingredients Aqua, Glycerin'' = None
   \<and> clean_ingredients_string ''Aqua, Glycerin'' = ''Aqua, Glycerin''"
  by code_simp

lemma inline_hyphen_elsewhere:
  "extract_inline_ingredients ''Ingredients PEG-40'' = None"
  by code_simp

section \<open>The separator after a label\<close>

lemma lower_below:
  assumes "lower x = c" and "(of_char c :: nat) < 97"
  shows "x = c"
proof -
  let ?n = "of_char x :: nat"
  show ?thesis
  proof (cases "(65 \<le> ?n \<and> ?n \<le> 90) \<or> (192 \<le> ?n \<and> ?n \<le> 214) \<or> (216 \<le> ?n \<and> ?n \<le> 222)")
    case True
    with assms(1) have "char_of (?n + 32) = c" by (simp add: lower_def Let_def)
    then have "(of_char (char_of (?n + 32) :: char) :: nat) = of_char c" by simp
    then have "(?n + 32) mod 256 = (of_char c :: nat)" by simp
    with True assms(2) show ?thesis by (simp add: mod_if split: if_splits)
  next
    case False
    with assms(1) show ?thesis by (simp add: lower_def Let_def)
  qed
qed

lemma separator_char:
  assumes "cls_ok fl (OneOf '':-'') x"
  shows "x = CHR '':'' \<or> x = CHR ''-''"
proof (cases "IGNORECASE \<in> set fl")
  case True
  with assms have "lower x = lower CHR '':'' \<or> lower x = lower CHR ''-''" by auto
  moreover have "lower CHR '':'' = CHR '':''" "lower CHR ''-'' = CHR ''-''"
    by (simp_all add: lower_def)
  ultimately have "lower x = CHR '':'' \<or> lower x = CHR ''-''" by simp
  then show ?thesis
  proof
    assume "lower x = CHR '':''"
    then have "x = CHR '':''" by (rule lower_below) simp
    then show ?thesis by simp
  next
    assume "lower x = CHR ''-''"
    then have "x = CHR ''-''" by (rule lower_below) simp
    then show ?thesis by simp
  qed
next
  case False
  with assms show ?thesis by simp
qed

lemma match_here_needs_char:
  "One c \<in> set p \<Longrightarrow> match_here fl p prev s = Some r \<Longrightarrow> \<exists>x \<in> set s. cls_ok fl c x"
proof (induction p arbitrary: prev s r)
  case Nil
  then show ?case by simp
next
  case (Cons it p)
  show ?case
  proof (cases it)
    case (One c')
    from Cons.prems(2) One obtain x xs where s: "s = x # xs" and ok: "cls_ok fl c' x"
      and m: "match_here fl p (Some x) xs = Some r"
      by (cases s) (auto split: if_splits)
    show ?thesis
    proof (cases "c' = c")
      case True
      with s ok show ?thesis by auto
    next
      case False
      with Cons.prems(1) One have "One c \<in> set p" by simp
      from Cons.IH [OF this m] s show ?thesis by auto
    qed
  next
    case (Rep c' lo hi)
    with Cons.prems(1) have mem: "One c \<in> set p" by simp
    from Cons.prems(2) Rep obtain n where
      "try_down (\<lambda>k. match_here fl p (prev_after prev s k) (drop k s)) lo n = Some r"
      by (simp add: Let_def)
    from try_down_Some [OF this] obtain j where
      "match_here fl p (prev_after prev s j) (drop j s) = Some r" by blast
    from Cons.IH [OF mem this] obtain x where "x \<in> set (drop j s)" "cls_ok fl c x" by blast
    then show ?thesis by (auto dest: in_set_dropD)
  next
    case WordB
    with Cons.prems have "One c \<in> set p" "match_here fl p prev s = Some r"
      by (simp_all split: if_splits)
    then show ?thesis by (rule Cons.IH)
  next
    case Bol
    with Cons.prems have "One c \<in> set p" "match_here fl p prev s = Some r"
      by (simp_all split: if_splits)
    then show ?thesis by (rule Cons.IH)
  next
    case Mark
    with Cons.prems obtain r' where "One c \<in> set p" "match_here fl p prev s = Some r'"
      by (auto split: option.splits)
    then show ?thesis by (rule Cons.IH)
  qed
qed

lemma re_search_needs_char:
  assumes "One c \<in> set p" and "\<forall>x \<in> set s. \<not> cls_ok fl c x"
  shows "re_search p s fl = None"
proof -
  have "match_here fl p (prev_after None s i) (drop i s) = None" for i
  proof (rule ccontr)
    assume "match_here fl p (prev_after None s i) (drop i s) \<noteq> None"
    then obtain r where "match_here fl p (prev_after None s i) (drop i s) = Some r" by blast
    from match_here_needs_char [OF assms(1) this] obtain x where
      "x \<in> set (drop i s)" "cls_ok fl c x" by blast
    with assms(2) show False by (auto dest: in_set_dropD)
  qed
  then show ?thesis by (simp add: re_search_def search_from_None_iff)
qed

lemma patterns_have_separator: "pat \<in> set patterns \<Longrightarrow> One (OneOf '':-'') \<in> set pat"
  by (auto simp: patterns_def label_tail_def lits_def)

lemma inline_loop_no_match:
  "\<forall>pat \<in> set pats. re_search pat text [IGNORECASE, DOTALL] = None \<Longrightarrow>
   inline_loop pats text = None"
  by (induction pats) simp_all

section \<open>The first label pattern on a plain label\<close>

lemma try_down_top: "lo \<le> k \<Longrightarrow> f k = Some r \<Longrightarrow> try_down f lo k = Some r"
  by (cases k) simp_all

lemma search_from_skip:
  "\<forall>i < length pre. match_here fl p (prev_after prev (pre @ s) i) (drop i (pre @ s)) = None \<Longrightarrow>
   search_from fl p pos prev (pre @ s)
     = search_from fl p (pos + length pre) (prev_after prev (pre @ s) (length pre)) s"
proof (induction pre arbitrary: pos prev)
  case Nil
  show ?case by (simp add: prev_after_0)
next
  case (Cons x pre)
  from Cons.prems have "match_here fl p (prev_after prev ((x # pre) @ s) 0) (drop 0 ((x # pre) @ s)) = None"
    by (intro Cons.prems [rule_format]) simp
  then have miss: "match_here fl p prev (x # pre @ s) = None" by (simp add: prev_after_0)
  have "\<forall>i < length pre. match_here fl p (prev_after (Some x) (pre @ s) i) (drop i (pre @ s)) = None"
  proof (intro allI impI)
    fix i assume "i < length pre"
    then have "Suc i < length (x # pre)" by simp
    with Cons.prems have "match_here fl p (prev_after prev ((x # pre) @ s) (Suc i))
        (drop (Suc i) ((x # pre) @ s)) = None" by blast
    then show "match_here fl p (prev_after (Some x) (pre @ s) i) (drop i (pre @ s)) = None"
      by (simp add: prev_after_Cons_Suc)
  qed
  from Cons.IH [OF this, of "Suc pos"] miss show ?case
    by (simp add: search_from_Cons_miss prev_after_Cons_Suc)
qed

lemma cls_ok_Space: "cls_ok fl Space = is_space"
  by (rule ext) simp

lemma char_of_105: "char_of (105 :: nat) = CHR ''i''"
  by code_simp

lemma group_tail:
  assumes "DOTALL \<in> set fl" and "W \<noteq> []"
  shows "match_here fl [Mark, Rep Dot 1 None, Mark] prev W = Some ([W, []], [])"
proof -
  have tw: "takeWhile (cls_ok fl Dot) W = W" using assms(1) by simp
  have "match_here fl [Mark] (prev_after prev W (length W)) (drop (length W) W) = Some ([[]], [])"
    by simp
  moreover from assms(2) have "1 \<le> length W" by (cases W) simp_all
  ultimately have "try_down (\<lambda>k. match_here fl [Mark] (prev_after prev W k) (drop k W)) 1 (length W)
      = Some ([[]], [])"
    by (intro try_down_top)
  then have "match_here fl [Rep Dot 1 None, Mark] prev W = Some ([[]], [])"
    by (simp add: tw Let_def)
  then show ?thesis by simp
qed

lemma spaces_then_group:
  assumes "DOTALL \<in> set fl" and "dropWhile is_space s \<noteq> []"
  shows "match_here fl [Rep Space 0 None, Mark, Rep Dot 1 None, Mark] prev s
         = Some ([dropWhile is_space s, []], [])"
proof -
  let ?k = "length (takeWhile is_space s)"
  have d: "drop ?k s = dropWhile is_space s" by (rule dropWhile_eq_drop [symmetric])
  have "match_here fl [Mark, Rep Dot 1 None, Mark] (prev_after prev s ?k) (drop ?k s)
        = Some ([dropWhile is_space s, []], [])"
    unfolding d using assms by (rule group_tail)
  then have "try_down (\<lambda>k. match_here fl [Mark, Rep Dot 1 None, Mark] (prev_after prev s k) (drop k s))
        0 ?k = Some ([dropWhile is_space s, []], [])"
    by (intro try_down_top) simp_all
  then show ?thesis by (simp only: match_here.simps(3) Let_def cls_ok_Space option.case)
qed

lemma separator_step:
  "match_here fl (Rep Space 0 None # One (OneOf '':-'') # r) prev (CHR '':'' # s)
   = match_here fl r (Some CHR '':'') s"
  by (simp add: is_space_def Let_def prev_after_def)

lemma plural_step:
  "match_here fl (Rep (Lit CHR ''s'') 0 (Some 1) # WordB # r) (Some CHR ''t'') (CHR ''s'' # CHR '':'' # s)
   = match_here fl r (Some CHR ''s'') (CHR '':'' # s)"
  by (simp add: Let_def prev_after_def word_boundary_def is_word_def lower_def
           split: option.splits)

lemma label_step:
  assumes "IGNORECASE \<in> set fl" and "case prev of None \<Rightarrow> True | Some c \<Rightarrow> \<not> is_word c"
  shows "match_here fl (WordB # lits ''ingredient'' @ r) prev (''Ingredient'' @ s)
         = match_here fl r (Some CHR ''t'') s"
  using assms
  by (simp add: lits_def word_boundary_def is_word_def lower_def char_of_105 split: option.splits)

lemma first_pattern_on_label:
  assumes "case prev of None \<Rightarrow> True | Some c \<Rightarrow> \<not> is_word c"
    and "dropWhile is_space X \<noteq> []"
  shows "match_here [IGNORECASE, DOTALL] (hd patterns) prev (''Ingredients: '' @ X)
         = Some ([dropWhile is_space X, []], [])"
proof -
  have p: "hd patterns = WordB # lits ''ingredient''
      @ (Rep (Lit CHR ''s'') 0 (Some 1) # WordB # Rep Space 0 None # One (OneOf '':-'')
         # [Rep Space 0 None, Mark, Rep Dot 1 None, Mark])"
    by (simp add: patterns_def label_tail_def)
  have t: "''Ingredients: '' @ X = ''Ingredient'' @ (CHR ''s'' # CHR '':'' # CHR '' '' # X)"
    by simp
  have sp: "dropWhile is_space (CHR '' '' # X) = dropWhile is_space X"
    by (simp add: is_space_def)
  show ?thesis
    unfolding p t
    by (subst label_step, simp, rule assms(1), subst plural_step, subst separator_step,
        subst spaces_then_group, simp, simp only: sp, rule assms(2), simp only: sp)
qed


lemma match_here_literal_prev:
  "match_here fl (One c # r) prev s = match_here fl (One c # r) prev' s"
  by (cases s) simp_all

lemma matches_at_literal_drop:
  assumes "matches_at fl (One c # r) (drop k s) i"
  shows "matches_at fl (One c # r) s (k + i)"
proof -
  from assms have i: "i \<le> length (drop k s)"
    and m: "match_here fl (One c # r) (prev_after None (drop k s) i) (drop i (drop k s)) \<noteq> None"
    by (simp_all add: matches_at_def)
  from m have "drop i (drop k s) \<noteq> []" by auto
  then have "k + i < length s" by simp
  moreover from m have "match_here fl (One c # r) (prev_after None s (k + i)) (drop (k + i) s) \<noteq> None"
    by (simp add: match_here_literal_prev [of fl c r "prev_after None s (k + i)" _ "prev_after None (drop k s) i"]
                  add.commute)
  ultimately show ?thesis by (simp add: matches_at_def)
qed

lemma no_marker_in_suffix:
  assumes "sm \<in> set STOP_MARKERS" and "re_search sm s [IGNORECASE] = None"
  shows "re_search sm (drop k s) [IGNORECASE] = None"
proof -
  from assms(1) obtain r where sm: "sm = One (Lit newline) # r"
    by (auto dest: STOP_MARKERS_newline)
  have "\<not> matches_at [IGNORECASE] sm (drop k s) i" for i
  proof
    assume "matches_at [IGNORECASE] sm (drop k s) i"
    then have "matches_at [IGNORECASE] sm s (k + i)"
      unfolding sm by (rule matches_at_literal_drop)
    with assms(2) show False by (simp add: re_search_None_iff)
  qed
  then show ?thesis by (simp add: re_search_None_iff)
qed

lemma cut_loop_no_match:
  "\<forall>sm \<in> set sms. re_search sm after [IGNORECASE] = None \<Longrightarrow> cut_loop sms after c = c"
  by (induction sms arbitrary: c) simp_all

lemma clean_leading_space:
  "clean_ingredients_string (dropWhile is_space s) = clean_ingredients_string s"
proof (cases s)
  case Nil
  then show ?thesis by simp
next
  case (Cons x xs)
  show ?thesis
  proof (cases "is_space x")
    case True
    have "strip_chars clean_chars (CHR '' '' # sub_spaces (dropWhile is_space xs))
        = strip_chars clean_chars (sub_spaces (dropWhile is_space xs))"
      by (simp add: strip_chars_def clean_chars_def)
    with True Cons show ?thesis by (simp add: clean_ingredients_string_def)
  next
    case False
    with Cons show ?thesis by simp
  qed
qed

lemma clean_Nil: "clean_ingredients_string [] = []"
  by (simp add: clean_ingredients_string_def strip_chars_def)

lemma prev_after_append: "prev_after None (pre @ s) (length pre)
    = (if pre = [] then None else Some (last pre))"
  by (cases pre rule: rev_cases) (simp_all add: prev_after_def nth_append)

lemma no_newline_no_marker:
  assumes "newline \<notin> set s" and "sm \<in> set STOP_MARKERS"
  shows "re_search sm s [IGNORECASE] = None"
proof -
  from assms(2) obtain r where sm: "sm = One (Lit newline) # r"
    by (auto dest: STOP_MARKERS_newline)
  have "\<not> matches_at [IGNORECASE] sm s i" for i
  proof
    assume "matches_at [IGNORECASE] sm s i"
    then have "i < length s \<and> s ! i = newline" unfolding sm by (rule matches_at_newline)
    then have "newline \<in> set s" by (metis nth_mem)
    with assms(1) show False by simp
  qed
  then show ?thesis by (simp add: re_search_None_iff)
qed

section \<open>The shape of a label match\<close>

lemma take_takeWhile: "k \<le> length (takeWhile P s) \<Longrightarrow> take k s = take k (takeWhile P s)"
proof -
  assume k: "k \<le> length (takeWhile P s)"
  have "take k s = take k (takeWhile P s @ dropWhile P s)" by simp
  also have "\<dots> = take k (takeWhile P s)" using k by (simp only: take_append) simp
  finally show ?thesis .
qed

lemma inv_One:
  assumes "match_here fl (One c # r) prev s = Some res"
  obtains x xs where "s = x # xs" "cls_ok fl c x" "match_here fl r (Some x) xs = Some res"
  using assms by (cases s) (auto split: if_splits)

lemma inv_Rep:
  assumes "match_here fl (Rep c lo hi # r) prev s = Some res"
  obtains k where "k \<le> length s" "\<forall>x \<in> set (take k s). cls_ok fl c x"
    "case hi of None \<Rightarrow> True | Some h \<Rightarrow> k \<le> h"
    "match_here fl r (prev_after prev s k) (drop k s) = Some res"
proof -
  let ?n = "length (takeWhile (cls_ok fl c) s)"
  let ?m = "case hi of None \<Rightarrow> ?n | Some h \<Rightarrow> min h ?n"
  from assms have "try_down (\<lambda>k. match_here fl r (prev_after prev s k) (drop k s)) lo ?m = Some res"
    by (simp add: Let_def)
  from try_down_Some [OF this] obtain j where j: "j \<le> ?m"
    and m: "match_here fl r (prev_after prev s j) (drop j s) = Some res" by blast
  from j have jn: "j \<le> ?n" by (cases hi) simp_all
  from j have jh: "case hi of None \<Rightarrow> True | Some h \<Rightarrow> j \<le> h" by (cases hi) simp_all
  have "?n \<le> length s" by (rule length_takeWhile_le)
  with jn have js: "j \<le> length s" by simp
  from jn have "take j s = take j (takeWhile (cls_ok fl c) s)" by (rule take_takeWhile)
  then have "set (take j s) \<subseteq> set (takeWhile (cls_ok fl c) s)"
    by (simp only: set_take_subset)
  then have all: "\<forall>x \<in> set (take j s). cls_ok fl c x" by (auto dest: set_takeWhileD)
  from js all jh m show ?thesis by (rule that)
qed

lemma inv_lits:
  assumes "match_here fl (lits w @ r) prev s = Some res" and "IGNORECASE \<in> set fl"
  obtains lab s' prev' where "s = lab @ s'" "map lower lab = map lower w"
    "match_here fl r prev' s' = Some res"
  using assms
proof (induction w arbitrary: prev s thesis)
  case Nil
  from Nil(1) [of "[]" s prev] Nil(2) show ?case by (simp add: lits_def)
next
  case (Cons a w)
  from Cons.prems(2) have "match_here fl (One (Lit a) # lits w @ r) prev s = Some res"
    by (simp add: lits_def)
  then obtain x xs where s: "s = x # xs" and ok: "cls_ok fl (Lit a) x"
    and m: "match_here fl (lits w @ r) (Some x) xs = Some res" by (rule inv_One)
  from ok Cons.prems(3) have lx: "lower x = lower a" by simp
  from m Cons.prems(3) obtain lab s' prev' where *: "xs = lab @ s'" "map lower lab = map lower w"
    "match_here fl r prev' s' = Some res" by (rule Cons.IH [rotated])
  from s * lx have 1: "s = (x # lab) @ s'" and 2: "map lower (x # lab) = map lower (a # w)"
    by simp_all
  from 1 2 *(3) show ?case by (rule Cons.prems(1))
qed

lemma group_tail_Nil: "match_here fl [Mark, Rep Dot 1 None, Mark] prev [] = None"
  by simp

lemma inv_tail:
  assumes "match_here fl label_tail prev s = Some (ms, e)" and "DOTALL \<in> set fl"
  obtains ws c ws' g where "s = ws @ c # ws' @ g" "\<forall>x \<in> set ws. is_space x"
    "c = CHR '':'' \<or> c = CHR ''-''" "\<forall>x \<in> set ws'. is_space x" "g \<noteq> []"
    "ms = [g, []]" "e = []"
proof -
  from assms(1) have "match_here fl (Rep Space 0 None # One (OneOf '':-'') # Rep Space 0 None
      # [Mark, Rep Dot 1 None, Mark]) prev s = Some (ms, e)"
    by (simp add: label_tail_def split: if_splits)
  then obtain k where k: "\<forall>x \<in> set (take k s). cls_ok fl Space x"
    and m1: "match_here fl (One (OneOf '':-'') # Rep Space 0 None # [Mark, Rep Dot 1 None, Mark])
      (prev_after prev s k) (drop k s) = Some (ms, e)" by (rule inv_Rep)
  from m1 obtain c xs where d: "drop k s = c # xs" and ok: "cls_ok fl (OneOf '':-'') c"
    and m2: "match_here fl (Rep Space 0 None # [Mark, Rep Dot 1 None, Mark]) (Some c) xs
      = Some (ms, e)" by (rule inv_One)
  from m2 obtain k' where k': "\<forall>x \<in> set (take k' xs). cls_ok fl Space x"
    and m3: "match_here fl [Mark, Rep Dot 1 None, Mark] (prev_after (Some c) xs k') (drop k' xs)
      = Some (ms, e)" by (rule inv_Rep)
  have g: "drop k' xs \<noteq> []"
  proof
    assume "drop k' xs = []"
    with m3 show False by (simp only: group_tail_Nil) simp
  qed
  with assms(2) have "match_here fl [Mark, Rep Dot 1 None, Mark] (prev_after (Some c) xs k') (drop k' xs)
      = Some ([drop k' xs, []], [])" by (rule group_tail)
  with m3 have res: "ms = [drop k' xs, []]" "e = []" by simp_all
  have "s = take k s @ drop k s" by simp
  also have "\<dots> = take k s @ c # xs" by (simp only: d)
  also have "xs = take k' xs @ drop k' xs" by simp
  finally have s: "s = take k s @ c # take k' xs @ drop k' xs" .
  from ok have sep: "c = CHR '':'' \<or> c = CHR ''-''" by (rule separator_char)
  from k have ws: "\<forall>x \<in> set (take k s). is_space x" by simp
  from k' have ws': "\<forall>x \<in> set (take k' xs). is_space x" by simp
  from s ws sep ws' g res show ?thesis by (rule that)
qed


lemma lower_label_parts:
  "map lower ''ingredient'' = ''ingredient''"
  "map lower ''ingredients/ingr'' = ''ingredients/ingr''"
  "map lower ''dients'' = ''dients''"
  "map lower ''ingredientes'' = ''ingredientes''"
  "map lower ''ingredientes/ingredients'' = ''ingredientes/ingredients''"
  "lower CHR ''s'' = CHR ''s''" "lower CHR ''e'' = CHR ''e''" "lower (CHR 0xE9) = CHR 0xE9"
  by (simp_all add: lower_def)

lemma tail_shape:
  assumes "match_here fl label_tail prev s' = Some (ms, e)" and "DOTALL \<in> set fl"
    and "map lower lab \<in> set label_wordings"
  shows "\<exists>lab' ws c ws' g. lab @ s' = lab' @ ws @ c # ws' @ g
     \<and> map lower lab' \<in> set label_wordings \<and> (\<forall>x \<in> set ws. is_space x)
     \<and> (c = CHR '':'' \<or> c = CHR ''-'') \<and> (\<forall>x \<in> set ws'. is_space x) \<and> g \<noteq> []
     \<and> ms = [g, []] \<and> e = []"
proof -
  from assms(1,2) obtain ws c ws' g where *: "s' = ws @ c # ws' @ g" "\<forall>x \<in> set ws. is_space x"
    "c = CHR '':'' \<or> c = CHR ''-''" "\<forall>x \<in> set ws'. is_space x" "g \<noteq> []"
    "ms = [g, []]" "e = []" by (rule inv_tail)
  from *(1) have "lab @ s' = lab @ ws @ c # ws' @ g" by simp
  with assms(3) *(2-7) show ?thesis by (intro exI conjI)
qed

lemma label_match_shape:
  assumes pat: "pat \<in> set patterns"
    and m: "match_here [IGNORECASE, DOTALL] pat prev s = Some (ms, e)"
  shows "\<exists>lab ws c ws' g. s = lab @ ws @ c # ws' @ g
     \<and> map lower lab \<in> set label_wordings \<and> (\<forall>x \<in> set ws. is_space x)
     \<and> (c = CHR '':'' \<or> c = CHR ''-'') \<and> (\<forall>x \<in> set ws'. is_space x) \<and> g \<noteq> []
     \<and> ms = [g, []] \<and> e = []"
proof -
  let ?fl = "[IGNORECASE, DOTALL]"
  have I: "IGNORECASE \<in> set ?fl" and D: "DOTALL \<in> set ?fl" by simp_all
  from pat consider
      (1) "pat = WordB # lits ''ingredient'' @ (Rep (Lit CHR ''s'') 0 (Some 1) # label_tail)"
    | (2) "pat = WordB # lits ''ingredients/ingr''
              @ (One (OneOf [CHR 0xE9, CHR ''e'']) # lits ''dients'' @ label_tail)"
    | (3) "pat = WordB # lits ''ingredientes'' @ label_tail"
    | (4) "pat = WordB # lits ''ingredientes/ingredients'' @ label_tail"
    by (auto simp: patterns_def)
  then show ?thesis
  proof cases
    case 1
    with m have "match_here ?fl (lits ''ingredient'' @ (Rep (Lit CHR ''s'') 0 (Some 1) # label_tail))
        prev s = Some (ms, e)" by (simp split: if_splits)
    from this I obtain lab0 s0 p0 where s: "s = lab0 @ s0"
      and l0: "map lower lab0 = map lower ''ingredient''"
      and m0: "match_here ?fl (Rep (Lit CHR ''s'') 0 (Some 1) # label_tail) p0 s0 = Some (ms, e)"
      by (rule inv_lits)
    from m0 obtain k where k: "\<forall>x \<in> set (take k s0). cls_ok ?fl (Lit CHR ''s'') x"
      and k1: "case Some (1 :: nat) of None \<Rightarrow> True | Some h \<Rightarrow> k \<le> h"
      and mt: "match_here ?fl label_tail (prev_after p0 s0 k) (drop k s0) = Some (ms, e)"
      by (rule inv_Rep)
    from k1 have "length (take k s0) \<le> 1" by simp
    then have "take k s0 = [] \<or> (\<exists>x. take k s0 = [x])"
      by (cases "take k s0"; cases "tl (take k s0)") auto
    then have "map lower (lab0 @ take k s0) = ''ingredient''
        \<or> map lower (lab0 @ take k s0) = ''ingredients''"
    proof
      assume t: "take k s0 = []"
      have "map lower (lab0 @ take k s0) = map lower lab0" by (simp only: t append_Nil2)
      also have "\<dots> = ''ingredient''" by (simp only: l0 lower_label_parts)
      finally show ?thesis by (rule disjI1)
    next
      assume "\<exists>x. take k s0 = [x]"
      then obtain x where t: "take k s0 = [x]" by blast
      with k have "cls_ok ?fl (Lit CHR ''s'') x" by simp
      then have lx: "lower x = CHR ''s''" by (simp add: lower_label_parts)
      have "map lower (lab0 @ take k s0) = map lower lab0 @ [lower x]" by (simp add: t)
      also have "\<dots> = ''ingredient'' @ [CHR ''s'']" by (simp only: l0 lower_label_parts lx)
      also have "\<dots> = ''ingredients''" by simp
      finally show ?thesis by (rule disjI2)
    qed
    then have "map lower (lab0 @ take k s0) \<in> set label_wordings"
    proof
      assume a: "map lower (lab0 @ take k s0) = ''ingredient''"
      show ?thesis unfolding a by (simp add: label_wordings_def)
    next
      assume a: "map lower (lab0 @ take k s0) = ''ingredients''"
      show ?thesis unfolding a by (simp add: label_wordings_def)
    qed
    with mt D have "\<exists>lab' ws c ws' g. (lab0 @ take k s0) @ drop k s0 = lab' @ ws @ c # ws' @ g
       \<and> map lower lab' \<in> set label_wordings \<and> (\<forall>x \<in> set ws. is_space x)
       \<and> (c = CHR '':'' \<or> c = CHR ''-'') \<and> (\<forall>x \<in> set ws'. is_space x) \<and> g \<noteq> []
       \<and> ms = [g, []] \<and> e = []" by (rule tail_shape)
    with s show ?thesis by (simp only: append_assoc append_take_drop_id)
  next
    case 2
    with m have "match_here ?fl (lits ''ingredients/ingr''
        @ (One (OneOf [CHR 0xE9, CHR ''e'']) # lits ''dients'' @ label_tail)) prev s = Some (ms, e)"
      by (simp split: if_splits)
    from this I obtain lab1 s1 p1 where s: "s = lab1 @ s1"
      and l1: "map lower lab1 = map lower ''ingredients/ingr''"
      and m1: "match_here ?fl (One (OneOf [CHR 0xE9, CHR ''e'']) # lits ''dients'' @ label_tail)
          p1 s1 = Some (ms, e)" by (rule inv_lits)
    from m1 obtain x s2 where s1: "s1 = x # s2"
      and x: "cls_ok ?fl (OneOf [CHR 0xE9, CHR ''e'']) x"
      and m2: "match_here ?fl (lits ''dients'' @ label_tail) (Some x) s2 = Some (ms, e)"
      by (rule inv_One)
    from m2 I obtain lab2 s3 p3 where s2: "s2 = lab2 @ s3"
      and l2: "map lower lab2 = map lower ''dients''"
      and mt: "match_here ?fl label_tail p3 s3 = Some (ms, e)" by (rule inv_lits)
    from x have "lower x = CHR 0xE9 \<or> lower x = CHR ''e''"
      by (auto simp: lower_label_parts)
    then have "map lower (lab1 @ x # lab2) = ''ingredients/ingr'' @ [CHR 0xE9] @ ''dients''
        \<or> map lower (lab1 @ x # lab2) = ''ingredients/ingredients''"
    proof
      assume lx: "lower x = CHR 0xE9"
      have "map lower (lab1 @ x # lab2) = map lower lab1 @ lower x # map lower lab2" by simp
      also have "\<dots> = ''ingredients/ingr'' @ CHR 0xE9 # ''dients''"
        by (simp only: l1 l2 lower_label_parts lx)
      also have "\<dots> = ''ingredients/ingr'' @ [CHR 0xE9] @ ''dients''" by simp
      finally show ?thesis by (rule disjI1)
    next
      assume lx: "lower x = CHR ''e''"
      have "map lower (lab1 @ x # lab2) = map lower lab1 @ lower x # map lower lab2" by simp
      also have "\<dots> = ''ingredients/ingr'' @ CHR ''e'' # ''dients''"
        by (simp only: l1 l2 lower_label_parts lx)
      also have "\<dots> = ''ingredients/ingredients''" by simp
      finally show ?thesis by (rule disjI2)
    qed
    then have "map lower (lab1 @ x # lab2) \<in> set label_wordings"
    proof
      assume a: "map lower (lab1 @ x # lab2) = ''ingredients/ingr'' @ [CHR 0xE9] @ ''dients''"
      show ?thesis unfolding a by (simp add: label_wordings_def)
    next
      assume a: "map lower (lab1 @ x # lab2) = ''ingredients/ingredients''"
      show ?thesis unfolding a by (simp add: label_wordings_def)
    qed
    with mt D have "\<exists>lab' ws c ws' g. (lab1 @ x # lab2) @ s3 = lab' @ ws @ c # ws' @ g
       \<and> map lower lab' \<in> set label_wordings \<and> (\<forall>x \<in> set ws. is_space x)
       \<and> (c = CHR '':'' \<or> c = CHR ''-'') \<and> (\<forall>x \<in> set ws'. is_space x) \<and> g \<noteq> []
       \<and> ms = [g, []] \<and> e = []" by (rule tail_shape)
    with s s1 s2 show ?thesis by (simp only: append_assoc append_Cons)
  next
    case 3
    with m have "match_here ?fl (lits ''ingredientes'' @ label_tail) prev s = Some (ms, e)"
      by (simp split: if_splits)
    from this I obtain lab0 s0 p0 where s: "s = lab0 @ s0"
      and l0: "map lower lab0 = map lower ''ingredientes''"
      and mt: "match_here ?fl label_tail p0 s0 = Some (ms, e)" by (rule inv_lits)
    have a: "map lower lab0 = ''ingredientes''" by (simp only: l0 lower_label_parts)
    have "map lower lab0 \<in> set label_wordings"
      unfolding a by (simp add: label_wordings_def)
    with mt D have "\<exists>lab' ws c ws' g. lab0 @ s0 = lab' @ ws @ c # ws' @ g
       \<and> map lower lab' \<in> set label_wordings \<and> (\<forall>x \<in> set ws. is_space x)
       \<and> (c = CHR '':'' \<or> c = CHR ''-'') \<and> (\<forall>x \<in> set ws'. is_space x) \<and> g \<noteq> []
       \<and> ms = [g, []] \<and> e = []" by (rule tail_shape)
    with s show ?thesis by (simp only:)
  next
    case 4
    with m have "match_here ?fl (lits ''ingredientes/ingredients'' @ label_tail) prev s
        = Some (ms, e)" by (simp split: if_splits)
    from this I obtain lab0 s0 p0 where s: "s = lab0 @ s0"
      and l0: "map lower lab0 = map lower ''ingredientes/ingredients''"
      and mt: "match_here ?fl label_tail p0 s0 = Some (ms, e)" by (rule inv_lits)
    have a: "map lower lab0 = ''ingredientes/ingredients''" by (simp only: l0 lower_label_parts)
    have "map lower lab0 \<in> set label_wordings"
      unfolding a by (simp add: label_wordings_def)
    with mt D have "\<exists>lab' ws c ws' g. lab0 @ s0 = lab' @ ws @ c # ws' @ g
       \<and> map lower lab' \<in> set label_wordings \<and> (\<forall>x \<in> set ws. is_space x)
       \<and> (c = CHR '':'' \<or> c = CHR ''-'') \<and> (\<forall>x \<in> set ws'. is_space x) \<and> g \<noteq> []
       \<and> ms = [g, []] \<and> e = []" by (rule tail_shape)
    with s show ?thesis by (simp only:)
  qed
qed


lemma search_from_Some_match:
  "search_from fl p pos prev s = Some m \<Longrightarrow>
   \<exists>i ms e. i \<le> length s
      \<and> match_here fl p (prev_after prev s i) (drop i s) = Some (ms, e)
      \<and> m = \<lparr>m_start = pos + i, m_end = pos + length s - length e,
               m_marks = map (\<lambda>x. pos + length s - length x) ms\<rparr>"
proof (induction s arbitrary: pos prev)
  case Nil
  show ?case
  proof (cases "match_here fl p prev []")
    case None
    with Nil show ?thesis by (simp add: search_from_Nil_miss)
  next
    case (Some r)
    obtain ms e where r: "r = (ms, e)" by (cases r)
    with Some Nil have "m = \<lparr>m_start = pos, m_end = pos + length ([] :: string) - length e,
        m_marks = map (\<lambda>x. pos + length ([] :: string) - length x) ms\<rparr>"
      by (simp add: search_from_hit)
    with Some r show ?thesis
      by (intro exI [of _ 0] exI [of _ ms] exI [of _ e]) (simp add: prev_after_0)
  qed
next
  case (Cons x xs)
  show ?case
  proof (cases "match_here fl p prev (x # xs)")
    case None
    with Cons.prems have "search_from fl p (Suc pos) (Some x) xs = Some m"
      by (simp add: search_from_Cons_miss)
    from Cons.IH [OF this] obtain j ms e where j: "j \<le> length xs"
      "match_here fl p (prev_after (Some x) xs j) (drop j xs) = Some (ms, e)"
      "m = \<lparr>m_start = Suc pos + j, m_end = Suc pos + length xs - length e,
            m_marks = map (\<lambda>y. Suc pos + length xs - length y) ms\<rparr>"
      by blast
    then show ?thesis
      by (intro exI [of _ "Suc j"] exI [of _ ms] exI [of _ e]) (simp add: prev_after_Cons_Suc)
  next
    case (Some r)
    obtain ms e where r: "r = (ms, e)" by (cases r)
    with Some Cons.prems have "m = \<lparr>m_start = pos, m_end = pos + length (x # xs) - length e,
        m_marks = map (\<lambda>y. pos + length (x # xs) - length y) ms\<rparr>"
      by (simp add: search_from_hit)
    with Some r show ?thesis
      by (intro exI [of _ 0] exI [of _ ms] exI [of _ e]) (simp add: prev_after_0)
  qed
qed

lemma all_le_upt: "(\<forall>i \<le> n. P i) \<longleftrightarrow> (\<forall>i \<in> set [0..<Suc n]. P i)"
  by (auto simp: less_Suc_eq_le)

lemma sep_follows_spaces:
  assumes "\<forall>x \<in> set ws. is_space x" and "c = CHR '':'' \<or> c = CHR ''-''"
  shows "sep_follows (ws @ c # rest)"
proof -
  from assms(2) have "\<not> is_space c" by (auto simp: is_space_def)
  with assms(1) have "dropWhile is_space (ws @ c # rest) = c # rest"
    by (simp add: dropWhile_append2)
  with assms(2) show ?thesis by (simp add: sep_follows_def)
qed

lemma inline_result_shape:
  assumes "extract_inline_ingredients text = Some r"
  shows "\<exists>pre lab ws c ws' g. text = pre @ lab @ ws @ c # ws' @ g
     \<and> map lower lab \<in> set label_wordings \<and> (\<forall>x \<in> set ws. is_space x)
     \<and> (c = CHR '':'' \<or> c = CHR ''-'') \<and> (\<forall>x \<in> set ws'. is_space x) \<and> g \<noteq> []
     \<and> r = clean_ingredients_string (kept g)"
proof -
  let ?fl = "[IGNORECASE, DOTALL]"
  from assms have "inline_loop patterns text = Some r"
    by (simp add: extract_inline_ingredients_def split: if_splits)
  from inline_loop_Some [OF this] obtain pre0 pat post m where ps: "patterns = pre0 @ pat # post"
    and se: "re_search pat text ?fl = Some m"
    and r: "r = clean_ingredients_string (kept (group1 text m))" by blast
  have "pat \<in> set (pre0 @ pat # post)" by simp
  then have pat: "pat \<in> set patterns" by (simp only: ps)
  from se have "search_from ?fl pat 0 None text = Some m" by (simp only: re_search_def)
  from search_from_Some_match [OF this] obtain i ms e where i: "i \<le> length text"
    and mh: "match_here ?fl pat (prev_after None text i) (drop i text) = Some (ms, e)"
    and m: "m = \<lparr>m_start = 0 + i, m_end = 0 + length text - length e,
               m_marks = map (\<lambda>x. 0 + length text - length x) ms\<rparr>" by blast
  from label_match_shape [OF pat mh] obtain lab ws c ws' g where
    d: "drop i text = lab @ ws @ c # ws' @ g"
    and lab: "map lower lab \<in> set label_wordings" and ws: "\<forall>x \<in> set ws. is_space x"
    and c: "c = CHR '':'' \<or> c = CHR ''-''" and ws': "\<forall>x \<in> set ws'. is_space x"
    and g: "g \<noteq> []" and ms: "ms = [g, []]" by blast
  have "text = take i text @ drop i text" by simp
  then have t: "text = take i text @ lab @ ws @ c # ws' @ g" by (simp only: d)
  define A where "A = take i text @ lab @ ws @ c # ws'"
  from t have tA: "text = A @ g" by (simp add: A_def)
  have "group1 text m = take (length text - (length text - length g)) (drop (length text - length g) text)"
    by (simp add: group1_def m ms)
  also have "\<dots> = g" by (simp add: tA)
  finally have "r = clean_ingredients_string (kept g)" using r by simp
  with t lab ws c ws' g show ?thesis by (intro exI conjI)
qed

lemma shape_labelled_at:
  assumes "text = pre @ lab @ ws @ c # rest" and "map lower lab \<in> set label_wordings"
    and "\<forall>x \<in> set ws. is_space x" and "c = CHR '':'' \<or> c = CHR ''-''"
  shows "length pre \<le> length text \<and> labelled_at text (length pre)"
proof -
  have l: "length (map lower lab) = length lab" by simp
  have "take (length (map lower lab)) (drop (length pre) text) = lab"
    by (simp add: assms(1))
  then have 1: "map lower (take (length (map lower lab)) (drop (length pre) text)) = map lower lab"
    by (simp only:)
  have "drop (length pre + length (map lower lab)) text = ws @ c # rest"
    by (simp add: assms(1))
  with assms(3,4) have 2: "sep_follows (drop (length pre + length (map lower lab)) text)"
    by (simp only: sep_follows_spaces)
  from assms(2) 1 2 have "labelled_at text (length pre)"
    unfolding labelled_at_def by (intro bexI [of _ "map lower lab"] conjI)
  then show ?thesis by (simp add: assms(1))
qed

section \<open>The claims of the specification\<close>

text \<open>
  Claim C9, the idempotence of the normalizer, is proved with the normalizer above.
\<close>

subsection \<open>C1: truncation at the leftmost stop marker\<close>

text \<open>
  C1 (as amended): whenever the inline extractor returns a string, that string comes from
  the candidate window of one label pattern: the first pattern in the list whose window,
  cut at its markers, normalizes to a non-empty string (earlier patterns that matched
  gave an empty one and were passed over). The string is the normalization of that
  window cut at the leftmost position at which any stop marker matches in it: the cut
  position is at most every match position of every marker, it is the window's length or
  a position where a marker matches, the kept part holds no marker match, and the cut
  position is the same for every ordering of the marker list.
\<close>

theorem inline_result_cut_at_leftmost_marker:
  assumes "extract_inline_ingredients text = Some r"
  shows "\<exists>pre pat post m. patterns = pre @ pat # post
     \<and> re_search pat text [IGNORECASE, DOTALL] = Some m
     \<and> (\<forall>q \<in> set pre. \<forall>m'. re_search q text [IGNORECASE, DOTALL] = Some m'
           \<longrightarrow> clean_ingredients_string (kept (group1 text m')) = [])
     \<and> r = clean_ingredients_string
             (take (cut_loop STOP_MARKERS (group1 text m) (length (group1 text m))) (group1 text m))
     \<and> cut_loop STOP_MARKERS (group1 text m) (length (group1 text m)) \<le> length (group1 text m)
     \<and> (\<forall>sm \<in> set STOP_MARKERS. \<forall>i. matches_at [IGNORECASE] sm (group1 text m) i
           \<longrightarrow> cut_loop STOP_MARKERS (group1 text m) (length (group1 text m)) \<le> i)
     \<and> (cut_loop STOP_MARKERS (group1 text m) (length (group1 text m)) = length (group1 text m)
          \<or> (\<exists>sm \<in> set STOP_MARKERS. matches_at [IGNORECASE] sm (group1 text m)
                (cut_loop STOP_MARKERS (group1 text m) (length (group1 text m)))))
     \<and> (\<forall>sm \<in> set STOP_MARKERS.
           re_search sm (take (cut_loop STOP_MARKERS (group1 text m) (length (group1 text m)))
                          (group1 text m)) [IGNORECASE] = None)
     \<and> (\<forall>sms. set sms = set STOP_MARKERS
           \<longrightarrow> cut_loop sms (group1 text m) (length (group1 text m))
               = cut_loop STOP_MARKERS (group1 text m) (length (group1 text m)))"
proof -
  from assms have "inline_loop patterns text = Some r"
    by (simp add: extract_inline_ingredients_def split: if_splits)
  from inline_loop_Some [OF this] obtain pre pat post m where *: "patterns = pre @ pat # post"
    "re_search pat text [IGNORECASE, DOTALL] = Some m"
    "r = clean_ingredients_string (kept (group1 text m))"
    "\<forall>q \<in> set pre. \<forall>m'. re_search q text [IGNORECASE, DOTALL] = Some m'
           \<longrightarrow> clean_ingredients_string (kept (group1 text m')) = []"
    by blast
  let ?w = "group1 text m"
  let ?c = "cut_loop STOP_MARKERS ?w (length ?w)"
  have 1: "r = clean_ingredients_string (take ?c ?w)" using *(3) by (simp add: kept_def)
  have 2: "?c \<le> length ?w" by (rule cut_loop_le)
  have 3: "\<forall>sm \<in> set STOP_MARKERS. \<forall>i. matches_at [IGNORECASE] sm ?w i \<longrightarrow> ?c \<le> i"
    by (blast intro: cut_loop_leftmost)
  have 4: "?c = length ?w \<or> (\<exists>sm \<in> set STOP_MARKERS. matches_at [IGNORECASE] sm ?w ?c)"
    by (rule cut_loop_at_match)
  have 5: "\<forall>sm \<in> set STOP_MARKERS. re_search sm (take ?c ?w) [IGNORECASE] = None"
    using kept_has_no_marker [of _ ?w] by (simp add: kept_def)
  have 6: "\<forall>sms. set sms = set STOP_MARKERS \<longrightarrow> cut_loop sms ?w (length ?w) = ?c"
    by (intro allI impI) (rule cut_loop_order_free)
  from *(1) *(2) *(4) 1 2 3 4 5 6 show ?thesis by (intro exI conjI)
qed

theorem inline_result_cut_at_leftmost_marker_witness:
  "extract_inline_ingredients
     ''Ingredientes: Aqua.\<newline>Modo de empleo: x''
     = Some ''Aqua''
   \<and> (\<exists>pat m. pat \<in> set patterns
        \<and> re_search pat ''Ingredientes: Aqua.\<newline>Modo de empleo: x''
             [IGNORECASE, DOTALL] = Some m
        \<and> ''Aqua'' = clean_ingredients_string
             (take (cut_loop STOP_MARKERS
                      (group1 ''Ingredientes: Aqua.\<newline>Modo de empleo: x'' m)
                      (length (group1 ''Ingredientes: Aqua.\<newline>Modo de empleo: x'' m)))
                   (group1 ''Ingredientes: Aqua.\<newline>Modo de empleo: x'' m)))"
proof -
  let ?T = "''Ingredientes: Aqua.\<newline>Modo de empleo: x''"
  have e: "extract_inline_ingredients ?T = Some ''Aqua''" by code_simp
  from inline_result_cut_at_leftmost_marker [OF e]
  obtain pre pat post m where a: "patterns = pre @ pat # post"
    and b: "re_search pat ?T [IGNORECASE, DOTALL] = Some m"
    and c: "''Aqua'' = clean_ingredients_string
             (take (cut_loop STOP_MARKERS (group1 ?T m) (length (group1 ?T m))) (group1 ?T m))"
    by (elim exE conjE) blast
  have "pat \<in> set (pre @ pat # post)" by simp
  then have "pat \<in> set patterns" by (simp only: a)
  with b c e show ?thesis by (intro conjI exI)
qed

text \<open>
  The first label pattern matches the text below and its window holds the marker
  \<open>\\nwarning\<close> at index 1, but the part before the marker normalizes to the empty
  string, so the loop goes on to the third label pattern, whose match lies after that
  marker: the extractor returns \<open>Aqua\<close>.
\<close>

theorem inline_fallthrough_counterexample:
  "map_option (group1 ''Ingredients: .\<newline>warning Ingredientes: Aqua'')
     (re_search (hd patterns) ''Ingredients: .\<newline>warning Ingredientes: Aqua''
        [IGNORECASE, DOTALL])
     = Some ''.\<newline>warning Ingredientes: Aqua''
   \<and> cut_loop STOP_MARKERS ''.\<newline>warning Ingredientes: Aqua''
         (length ''.\<newline>warning Ingredientes: Aqua'') = 1
   \<and> extract_inline_ingredients ''Ingredients: .\<newline>warning Ingredientes: Aqua''
       = Some ''Aqua''"
  by code_simp

subsection \<open>C2: a plain label and its continuation\<close>

text \<open>
  C2 (as amended): for every text of the form prefix, then \<open>Ingredients: \<close>, then X,
  where no stop marker matches in X, the normalization of X is not empty, the prefix is
  empty or ends in a character that is not a word character, and the first label pattern
  matches at no position inside the prefix, the inline extractor returns the
  normalization of X.
\<close>

theorem inline_returns_normalized_continuation:
  assumes nomark: "\<forall>sm \<in> set STOP_MARKERS. re_search sm X [IGNORECASE] = None"
    and nonempty: "clean_ingredients_string X \<noteq> []"
    and boundary: "prefix = [] \<or> \<not> is_word (last prefix)"
    and earlier: "\<forall>i < length prefix.
        \<not> matches_at [IGNORECASE, DOTALL] (hd patterns) (prefix @ ''Ingredients: '' @ X) i"
  shows "extract_inline_ingredients (prefix @ ''Ingredients: '' @ X)
         = Some (clean_ingredients_string X)"
proof -
  let ?fl = "[IGNORECASE, DOTALL]"
  let ?L = "''Ingredients: ''"
  let ?T = "prefix @ ?L @ X"
  let ?W = "dropWhile is_space X"
  let ?k = "length (takeWhile is_space X)"
  have W: "?W \<noteq> []"
  proof
    assume e: "?W = []"
    have "clean_ingredients_string X = clean_ingredients_string ?W"
      by (rule clean_leading_space [symmetric])
    also have "\<dots> = []" unfolding e by (rule clean_Nil)
    finally show False using nonempty by simp
  qed
  have len: "length X = ?k + length ?W"
    by (metis length_append takeWhile_dropWhile_id)
  have Wdrop: "?W = drop ?k X" by (rule dropWhile_eq_drop)
  have prev: "case prev_after None ?T (length prefix) of None \<Rightarrow> True | Some c \<Rightarrow> \<not> is_word c"
    using boundary by (simp only: prev_after_append) auto
  from prev W have hit: "match_here ?fl (hd patterns) (prev_after None ?T (length prefix)) (?L @ X)
      = Some ([?W, []], [])"
    by (rule first_pattern_on_label)
  have "\<forall>i < length prefix. match_here ?fl (hd patterns) (prev_after None ?T i) (drop i ?T) = None"
  proof (intro allI impI)
    fix i assume i: "i < length prefix"
    with earlier have n: "\<not> matches_at ?fl (hd patterns) ?T i" by blast
    have le: "i \<le> length ?T" using i by simp
    show "match_here ?fl (hd patterns) (prev_after None ?T i) (drop i ?T) = None"
    proof (rule ccontr)
      assume "match_here ?fl (hd patterns) (prev_after None ?T i) (drop i ?T) \<noteq> None"
      with le have "matches_at ?fl (hd patterns) ?T i"
        unfolding matches_at_def by (rule conjI)
      with n show False ..
    qed
  qed
  then have "re_search (hd patterns) ?T ?fl
      = search_from ?fl (hd patterns) (0 + length prefix)
          (prev_after None ?T (length prefix)) (?L @ X)"
    unfolding re_search_def by (rule search_from_skip)
  also have "\<dots> = Some \<lparr>m_start = 0 + length prefix,
        m_end = 0 + length prefix + length (?L @ X) - length ([] :: string),
        m_marks = map (\<lambda>m. 0 + length prefix + length (?L @ X) - length m) [?W, []]\<rparr>"
    using hit by (rule search_from_hit)
  finally have search: "re_search (hd patterns) ?T ?fl
      = Some \<lparr>m_start = length prefix, m_end = length ?T,
              m_marks = [length prefix + 13 + ?k, length ?T]\<rparr>"
    using len by simp
  have "drop (length prefix + 13) ?T = X" by simp
  then have "drop ?k (drop (length prefix + 13) ?T) = ?W" by (simp only: Wdrop)
  then have "drop (?k + (length prefix + 13)) ?T = ?W" by (simp only: drop_drop)
  then have "drop (length prefix + 13 + ?k) ?T = ?W" by (simp only: add.commute)
  moreover have "length ?T - (length prefix + 13 + ?k) = length ?W" using len by simp
  ultimately have g: "group1 ?T \<lparr>m_start = length prefix, m_end = length ?T,
              m_marks = [length prefix + 13 + ?k, length ?T]\<rparr> = ?W"
    by (simp add: group1_def)
  have "\<forall>sm \<in> set STOP_MARKERS. re_search sm ?W [IGNORECASE] = None"
    unfolding Wdrop using nomark by (simp add: no_marker_in_suffix)
  then have cut: "cut_loop STOP_MARKERS ?W (length ?W) = length ?W"
    by (rule cut_loop_no_match)
  have c: "clean_ingredients_string ?W = clean_ingredients_string X"
    by (rule clean_leading_space)
  have pats: "patterns = hd patterns # tl patterns" by (simp add: patterns_def)
  define T where "T = ?T"
  have Tne: "T \<noteq> []" by (simp add: T_def)
  note search' = search [folded T_def] and g' = g [folded T_def]
  have "inline_loop (hd patterns # tl patterns) T = Some (clean_ingredients_string X)"
    using nonempty by (simp add: search' g' cut c Let_def del: dropWhile_eq_Nil_conv)
  then have "extract_inline_ingredients T = Some (clean_ingredients_string X)"
    using pats Tne by (simp add: extract_inline_ingredients_def)
  then show ?thesis unfolding T_def .
qed


theorem inline_returns_normalized_continuation_witness:
  "extract_inline_ingredients (''INCI. '' @ ''Ingredients: '' @ ''Aqua, Talc.'')
     = Some ''Aqua, Talc''
   \<and> clean_ingredients_string ''Aqua, Talc.'' = ''Aqua, Talc''"
proof -
  have n: "newline \<notin> set ''Aqua, Talc.''" by (simp add: newline_def)
  have h1: "\<forall>sm \<in> set STOP_MARKERS. re_search sm ''Aqua, Talc.'' [IGNORECASE] = None"
    using n by (simp add: no_newline_no_marker)
  have c: "clean_ingredients_string ''Aqua, Talc.'' = ''Aqua, Talc''" by code_simp
  then have h2: "clean_ingredients_string ''Aqua, Talc.'' \<noteq> []" by simp
  have h3: "''INCI. '' = [] \<or> \<not> is_word (last ''INCI. '')" by (simp add: is_word_def)
  have "\<forall>i \<in> set [0..<6]. \<not> matches_at [IGNORECASE, DOTALL] (hd patterns)
      (''INCI. '' @ ''Ingredients: '' @ ''Aqua, Talc.'') i" by code_simp
  then have h4: "\<forall>i < length ''INCI. ''. \<not> matches_at [IGNORECASE, DOTALL] (hd patterns)
      (''INCI. '' @ ''Ingredients: '' @ ''Aqua, Talc.'') i" by simp
  from inline_returns_normalized_continuation [OF h1 h2 h3 h4] c show ?thesis by simp
qed

text \<open>
  Three texts of the form the claim describes, each with an X that holds no stop marker.
  In the first the prefix itself holds a label, and the window starts there. In the
  second the prefix ends in a letter, so the label is not at a word boundary and nothing
  matches. In the third X normalizes to the empty string and the result is absence, not
  the empty string.
\<close>

theorem plain_label_counterexample:
  "extract_inline_ingredients (''Ingredients: Talc. '' @ ''Ingredients: '' @ ''Aqua'')
     = Some ''Talc. Ingredients: Aqua''
   \<and> extract_inline_ingredients (''x'' @ ''Ingredients: '' @ ''Aqua'') = None
   \<and> clean_ingredients_string ''Aqua'' = ''Aqua''
   \<and> extract_inline_ingredients ([] @ ''Ingredients: '' @ ''.'') = None
   \<and> clean_ingredients_string ''.'' = []"
  by code_simp

subsection \<open>C3: priority of the row truncation rules\<close>

text \<open>
  C3: the per-line name derivation first removes a leading row-number prefix (the match
  of the row-prefix pattern at the start of the line, if there is one) and then cuts the
  line at the CAS-number pattern if that matches anywhere, else at the decimal-quantity
  pattern, else at the \<open>c.s.p.\<close> marker, else not at all: a fixed priority, not the
  leftmost match. The row \<open>1. Aqua 7732-18-5 0.5\<close> gives \<open>Aqua\<close>.
\<close>

theorem name_truncation_priority:
  "(\<forall>line. strip line \<noteq> [] \<longrightarrow>
      strip_row_prefix line =
        (case match_here [] row_prefix None line of None \<Rightarrow> line | Some (ms, e) \<Rightarrow> e)
      \<and> (\<forall>m. re_search cas_number (strip_row_prefix line) [] = Some m \<longrightarrow>
            extract_name_from_line line
              = Some (strip (take (m_start m) (strip_row_prefix line))))
      \<and> (re_search cas_number (strip_row_prefix line) [] = None \<longrightarrow>
           (\<forall>m. re_search decimal_quantity (strip_row_prefix line) [] = Some m \<longrightarrow>
              extract_name_from_line line
                = Some (strip (take (m_start m) (strip_row_prefix line)))))
      \<and> (re_search cas_number (strip_row_prefix line) [] = None
           \<and> re_search decimal_quantity (strip_row_prefix line) [] = None \<longrightarrow>
           (\<forall>m. re_search csp_marker (strip_row_prefix line) [IGNORECASE] = Some m \<longrightarrow>
              extract_name_from_line line
                = Some (strip (take (m_start m) (strip_row_prefix line)))))
      \<and> (re_search cas_number (strip_row_prefix line) [] = None
           \<and> re_search decimal_quantity (strip_row_prefix line) [] = None
           \<and> re_search csp_marker (strip_row_prefix line) [IGNORECASE] = None \<longrightarrow>
           extract_name_from_line line = Some (strip (strip_row_prefix line))))
   \<and> extract_name_from_line ''1. Aqua 7732-18-5 0.5'' = Some ''Aqua''"
proof (intro conjI allI impI)
  fix line :: string
  show "strip_row_prefix line =
        (case match_here [] row_prefix None line of None \<Rightarrow> line | Some (ms, e) \<Rightarrow> e)"
    by (rule strip_row_prefix_eq)
next
  fix line :: string and m
  assume "strip line \<noteq> []" "re_search cas_number (strip_row_prefix line) [] = Some m"
  then show "extract_name_from_line line = Some (strip (take (m_start m) (strip_row_prefix line)))"
    by (simp add: extract_name_from_line_def)
next
  fix line :: string and m
  assume "strip line \<noteq> []" "re_search cas_number (strip_row_prefix line) [] = None"
    "re_search decimal_quantity (strip_row_prefix line) [] = Some m"
  then show "extract_name_from_line line = Some (strip (take (m_start m) (strip_row_prefix line)))"
    by (simp add: extract_name_from_line_def)
next
  fix line :: string and m
  assume "strip line \<noteq> []" "re_search cas_number (strip_row_prefix line) [] = None
           \<and> re_search decimal_quantity (strip_row_prefix line) [] = None"
    "re_search csp_marker (strip_row_prefix line) [IGNORECASE] = Some m"
  then show "extract_name_from_line line = Some (strip (take (m_start m) (strip_row_prefix line)))"
    by (simp add: extract_name_from_line_def)
next
  fix line :: string
  assume "strip line \<noteq> []" "re_search cas_number (strip_row_prefix line) [] = None
           \<and> re_search decimal_quantity (strip_row_prefix line) [] = None
           \<and> re_search csp_marker (strip_row_prefix line) [IGNORECASE] = None"
  then show "extract_name_from_line line = Some (strip (strip_row_prefix line))"
    by (simp add: extract_name_from_line_def)
next
  show "extract_name_from_line ''1. Aqua 7732-18-5 0.5'' = Some ''Aqua''"
    by code_simp
qed

text \<open>
  In \<open>Aqua 0.5 7732-18-5\<close> the decimal quantity is the leftmost marker, yet the line is
  cut at the CAS number, which has priority.
\<close>

theorem name_truncation_priority_witness:
  "strip ''Aqua 0.5 7732-18-5'' \<noteq> []
   \<and> map_option m_start (re_search decimal_quantity ''Aqua 0.5 7732-18-5'' []) = Some 4
   \<and> map_option m_start (re_search cas_number ''Aqua 0.5 7732-18-5'' []) = Some 8
   \<and> extract_name_from_line ''Aqua 0.5 7732-18-5'' = Some ''Aqua 0.5''
   \<and> extract_name_from_line ''Aqua 0.5'' = Some ''Aqua''
   \<and> extract_name_from_line ''Aqua c.s.p. 100'' = Some ''Aqua''
   \<and> extract_name_from_line ''Talc'' = Some ''Talc''"
proof -
  let ?l = "''Aqua 0.5 7732-18-5''"
  have s: "strip ?l \<noteq> []" by code_simp
  have p: "strip_row_prefix ?l = ?l" by code_simp
  have d: "map_option m_start (re_search decimal_quantity ?l []) = Some 4" by code_simp
  have c: "re_search cas_number ?l [] = Some \<lparr>m_start = 8, m_end = 18, m_marks = []\<rparr>"
    by code_simp
  have t: "strip (take 8 ?l) = ''Aqua 0.5''" by code_simp
  from name_truncation_priority s p c
  have 1: "extract_name_from_line ?l = Some (strip (take 8 ?l))" by simp
  from name_truncation_priority decimal_row
  have 2: "extract_name_from_line ''Aqua 0.5'' = Some (strip (take 4 ''Aqua 0.5''))" by simp
  from name_truncation_priority csp_row
  have 3: "extract_name_from_line ''Aqua c.s.p. 100'' = Some (strip (take 4 ''Aqua c.s.p. 100''))"
    by simp
  from name_truncation_priority plain_row
  have 4: "extract_name_from_line ''Talc'' = Some (strip ''Talc'')" by simp
  from 2 decimal_row have 2: "extract_name_from_line ''Aqua 0.5'' = Some ''Aqua''" by simp
  from 3 csp_row have 3: "extract_name_from_line ''Aqua c.s.p. 100'' = Some ''Aqua''" by simp
  from 4 plain_row have 4: "extract_name_from_line ''Talc'' = Some ''Talc''" by simp
  from 1 2 3 4 s d c t show ?thesis by simp
qed

subsection \<open>C4: deduplication of the table names\<close>

text \<open>
  C4: the tabular extractor deduplicates the accumulated names by exact equality and
  keeps each name at the position of its first occurrence, before joining with a comma
  and a space. Whenever it returns a string, that string is the join of a list that has
  no duplicates, has the same elements as the accumulated names, and consists of the
  names at exactly those indices where the name did not occur before, in order.
\<close>

theorem table_deduplicates_first_occurrence:
  assumes "extract_table_ingredients text = Some r"
  shows "r = join '', '' (unique_loop (header_loop headers text []) {} [])
    \<and> distinct (unique_loop (header_loop headers text []) {} [])
    \<and> set (unique_loop (header_loop headers text []) {} []) = set (header_loop headers text [])
    \<and> unique_loop (header_loop headers text []) {} []
        = map ((!) (header_loop headers text []))
            (filter (\<lambda>i. header_loop headers text [] ! i
                            \<notin> set (take i (header_loop headers text [])))
               [0..<length (header_loop headers text [])])"
proof -
  let ?names = "header_loop headers text []"
  from assms have 1: "r = join '', '' (unique_loop ?names {} [])"
    by (simp add: extract_table_ingredients_def Let_def split: if_splits)
  have 2: "distinct (unique_loop ?names {} [])"
    using unique_loop_distinct [of "[]" ?names] by simp
  have 3: "set (unique_loop ?names {} []) = set ?names"
    using unique_loop_set [of ?names "[]"] by simp
  have 4: "unique_loop ?names {} [] = map ((!) ?names)
            (filter (\<lambda>i. ?names ! i \<notin> set (take i ?names)) [0..<length ?names])"
    using unique_loop_first_occurrences [of ?names "[]"] by simp
  from 1 2 3 4 show ?thesis by (intro conjI)
qed

theorem table_deduplicates_first_occurrence_witness:
  "header_loop headers ''INGREDIENTE INCI\<newline>Aqua 56-81-5\<newline>Talc\<newline>2. Aqua'' []
     = [''Aqua'', ''Talc'', ''Aqua'']
   \<and> extract_table_ingredients ''INGREDIENTE INCI\<newline>Aqua 56-81-5\<newline>Talc\<newline>2. Aqua''
     = Some ''Aqua, Talc''
   \<and> ''Aqua, Talc'' = join '', '' (unique_loop [''Aqua'', ''Talc'', ''Aqua''] {} [])
   \<and> distinct (unique_loop [''Aqua'', ''Talc'', ''Aqua''] {} [])"
proof -
  let ?T = "''INGREDIENTE INCI\<newline>Aqua 56-81-5\<newline>Talc\<newline>2. Aqua''"
  have h: "header_loop headers ?T [] = [''Aqua'', ''Talc'', ''Aqua'']" by code_simp
  have e: "extract_table_ingredients ?T = Some ''Aqua, Talc''"
    by (simp add: extract_table_ingredients_def h)
  from table_deduplicates_first_occurrence [OF e]
  have "''Aqua, Talc'' = join '', '' (unique_loop (header_loop headers ?T []) {} [])"
    and "distinct (unique_loop (header_loop headers ?T []) {} [])" by blast+
  with h e show ?thesis by (simp only: simp_thms)
qed

subsection \<open>C5: the two heuristics as exclusive fallbacks\<close>

text \<open>
  C5: on every recovered text the orchestrator applies the inline extractor first. If it
  yields a string, that string is the final result and the tabular extractor is not run;
  only if the inline extractor signals absence is the tabular extractor run, and its
  result, a string or absence, is the final result. The final result is always the
  result of one of the two extractors, never a combination.
\<close>

theorem heuristics_are_exclusive_fallbacks:
  "(\<forall>r. extract_inline_ingredients text = Some r \<longrightarrow>
        extract_from_text text = ([Inline_extractor], Some r))
   \<and> (extract_inline_ingredients text = None \<longrightarrow>
        extract_from_text text
          = ([Inline_extractor, Tabular_extractor], extract_table_ingredients text))
   \<and> (extract_inline_ingredients text = None \<and> extract_table_ingredients text = None \<longrightarrow>
        snd (extract_from_text text) = None)
   \<and> (snd (extract_from_text text) = extract_inline_ingredients text
        \<or> snd (extract_from_text text) = extract_table_ingredients text)
   \<and> (\<forall>(sv :: ('e, 'img) services) path. recovered_text sv path = Inr text \<longrightarrow>
        (\<exists>pre. (pre = [Native_text] \<or> pre = [Native_text, Ocr_text])
           \<and> extract_ingredients_from_pdf sv path
               = (pre @ fst (extract_from_text text), Inr (snd (extract_from_text text)))))"
proof (intro conjI allI impI)
  fix r assume "extract_inline_ingredients text = Some r"
  then show "extract_from_text text = ([Inline_extractor], Some r)"
    by (rule extract_from_text_inline)
next
  assume "extract_inline_ingredients text = None"
  then show "extract_from_text text
      = ([Inline_extractor, Tabular_extractor], extract_table_ingredients text)"
    by (rule extract_from_text_table)
next
  assume "extract_inline_ingredients text = None \<and> extract_table_ingredients text = None"
  then show "snd (extract_from_text text) = None"
    by (simp add: extract_from_text_table)
next
  show "snd (extract_from_text text) = extract_inline_ingredients text
        \<or> snd (extract_from_text text) = extract_table_ingredients text"
  proof (cases "extract_inline_ingredients text")
    case None
    then show ?thesis by (simp add: extract_from_text_table)
  next
    case (Some r)
    then show ?thesis by (simp add: extract_from_text_inline)
  qed
next
  fix sv :: "('e, 'img) services" and path
  assume "recovered_text sv path = Inr text"
  then show "\<exists>pre. (pre = [Native_text] \<or> pre = [Native_text, Ocr_text])
           \<and> extract_ingredients_from_pdf sv path
               = (pre @ fst (extract_from_text text), Inr (snd (extract_from_text text)))"
    by (rule orchestrator_on_recovered_text)
qed

text \<open>
  On the first text both extractors find something, and the result is the inline one
  alone; on the second the inline extractor finds nothing and the tabular result stands;
  on the third neither finds anything. The last line is a document whose recovered text
  is the first text.
\<close>

theorem heuristics_are_exclusive_fallbacks_witness:
  "extract_table_ingredients ''Lista de ingredientes: Aqua'' = Some '': Aqua''
   \<and> extract_from_text ''Lista de ingredientes: Aqua'' = ([Inline_extractor], Some ''Aqua'')
   \<and> extract_from_text ''Lista de ingredientes\<newline>Aqua.''
       = ([Inline_extractor, Tabular_extractor], Some ''Aqua.'')
   \<and> extract_from_text ''Aqua'' = ([Inline_extractor, Tabular_extractor], None)
   \<and> extract_ingredients_from_pdf
        \<lparr>decode_native = (\<lambda>p. Inr [Some ''0123456789'']),
         rasterize = (\<lambda>p. Inr [0 :: nat]),
         recognize = (\<lambda>i. (Inr ''Lista de ingredientes: Aqua'' :: unit + string))\<rparr> ''a.pdf''
       = ([Native_text, Ocr_text, Inline_extractor], Inr (Some ''Aqua''))"
proof -
  let ?sv = "\<lparr>decode_native = (\<lambda>p. Inr [Some ''0123456789'']),
         rasterize = (\<lambda>p. Inr [0 :: nat]),
         recognize = (\<lambda>i. (Inr ''Lista de ingredientes: Aqua'' :: unit + string))\<rparr>"
  from heuristics_are_exclusive_fallbacks [of "''Lista de ingredientes: Aqua''"]
    inline_on_lista_colon
  have a: "extract_from_text ''Lista de ingredientes: Aqua'' = ([Inline_extractor], Some ''Aqua'')"
    by blast
  from heuristics_are_exclusive_fallbacks [of "''Lista de ingredientes\<newline>Aqua.''"]
    inline_on_lista_rows
  have "extract_from_text ''Lista de ingredientes\<newline>Aqua.''
       = ([Inline_extractor, Tabular_extractor],
          extract_table_ingredients ''Lista de ingredientes\<newline>Aqua.'')" by blast
  with table_on_lista_rows have b: "extract_from_text ''Lista de ingredientes\<newline>Aqua.''
       = ([Inline_extractor, Tabular_extractor], Some ''Aqua.'')" by simp
  from both_absent have ia: "extract_inline_ingredients ''Aqua'' = None" by (rule conjunct1)
  from heuristics_are_exclusive_fallbacks [of "''Aqua''"] ia
  have "extract_from_text ''Aqua''
       = ([Inline_extractor, Tabular_extractor], extract_table_ingredients ''Aqua'')" by blast
  with both_absent have c: "extract_from_text ''Aqua'' = ([Inline_extractor, Tabular_extractor], None)"
    by simp
  have r: "recovered_text ?sv ''a.pdf'' = Inr ''Lista de ingredientes: Aqua''"
    by (simp add: recovered_text_def extract_text_from_pdf_def extract_text_with_ocr_def
          strip_def is_space_def)
  from heuristics_are_exclusive_fallbacks [of "''Lista de ingredientes: Aqua''"] r
  obtain pre where pre: "pre = [Native_text] \<or> pre = [Native_text, Ocr_text]"
    and o: "extract_ingredients_from_pdf ?sv ''a.pdf''
       = (pre @ fst (extract_from_text ''Lista de ingredientes: Aqua''),
          Inr (snd (extract_from_text ''Lista de ingredientes: Aqua'')))" by blast
  have "extract_ingredients_from_pdf ?sv ''a.pdf''
       = ([Native_text, Ocr_text, Inline_extractor], Inr (Some ''Aqua''))"
    by (simp add: extract_ingredients_from_pdf_def extract_text_from_pdf_def
          extract_text_with_ocr_def strip_def is_space_def a)
  with table_on_lista_colon a b c show ?thesis by (intro conjI)
qed

subsection \<open>C6: the OCR fallback below 40 characters\<close>

text \<open>
  C6: when the native decoding succeeds, the native text is the page texts joined with
  newlines and trimmed. If it has fewer than 40 characters the orchestrator discards it
  and runs the OCR path before any heuristic: the heuristics run on the OCR text, or the
  OCR failure is the outcome. If it has 40 characters or more the heuristics run on the
  native text, the OCR path is not among the steps, and the outcome does not depend on
  the rasterizer or the OCR engine at all.
\<close>

theorem ocr_fallback_below_forty:
  fixes sv :: "('e, 'img) services"
  assumes "decode_native sv path = Inr pages"
  shows "extract_text_from_pdf sv path
      = Inr (strip (join [newline] (map (\<lambda>p. case p of None \<Rightarrow> [] | Some t \<Rightarrow> t) pages)))
    \<and> (length (strip (join [newline] (map (\<lambda>p. case p of None \<Rightarrow> [] | Some t \<Rightarrow> t) pages))) < 40
        \<longrightarrow> extract_ingredients_from_pdf sv path
            = (case extract_text_with_ocr sv path of
                 Inl e \<Rightarrow> ([Native_text, Ocr_text], Inl e)
               | Inr ocr \<Rightarrow> ([Native_text, Ocr_text] @ fst (extract_from_text ocr),
                             Inr (snd (extract_from_text ocr)))))
    \<and> (40 \<le> length (strip (join [newline] (map (\<lambda>p. case p of None \<Rightarrow> [] | Some t \<Rightarrow> t) pages)))
        \<longrightarrow> extract_ingredients_from_pdf sv path
            = ([Native_text] @ fst (extract_from_text
                 (strip (join [newline] (map (\<lambda>p. case p of None \<Rightarrow> [] | Some t \<Rightarrow> t) pages)))),
               Inr (snd (extract_from_text
                 (strip (join [newline] (map (\<lambda>p. case p of None \<Rightarrow> [] | Some t \<Rightarrow> t) pages))))))
          \<and> Ocr_text \<notin> set (fst (extract_ingredients_from_pdf sv path))
          \<and> (\<forall>sv' :: ('e, 'img) services. decode_native sv' path = decode_native sv path
                \<longrightarrow> extract_ingredients_from_pdf sv' path = extract_ingredients_from_pdf sv path))"
proof -
  let ?native = "strip (join [newline] (map (\<lambda>p. case p of None \<Rightarrow> [] | Some t \<Rightarrow> t) pages))"
  have native: "\<And>s :: ('e, 'img) services. decode_native s path = Inr pages
      \<Longrightarrow> extract_text_from_pdf s path = Inr ?native"
    by (simp add: extract_text_from_pdf_def newline_def)
  have long: "\<And>s :: ('e, 'img) services. decode_native s path = Inr pages
      \<Longrightarrow> 40 \<le> length ?native
      \<Longrightarrow> extract_ingredients_from_pdf s path
          = ([Native_text] @ fst (extract_from_text ?native), Inr (snd (extract_from_text ?native)))"
    by (simp add: extract_ingredients_from_pdf_def native split: prod.splits)
  have 1: "extract_text_from_pdf sv path = Inr ?native" using assms by (rule native)
  have 2: "length ?native < 40 \<longrightarrow> extract_ingredients_from_pdf sv path
            = (case extract_text_with_ocr sv path of
                 Inl e \<Rightarrow> ([Native_text, Ocr_text], Inl e)
               | Inr ocr \<Rightarrow> ([Native_text, Ocr_text] @ fst (extract_from_text ocr),
                             Inr (snd (extract_from_text ocr))))"
    using 1 by (simp add: extract_ingredients_from_pdf_def split: sum.splits prod.splits)
  have 3: "40 \<le> length ?native \<longrightarrow> extract_ingredients_from_pdf sv path
            = ([Native_text] @ fst (extract_from_text ?native), Inr (snd (extract_from_text ?native)))
          \<and> Ocr_text \<notin> set (fst (extract_ingredients_from_pdf sv path))
          \<and> (\<forall>sv' :: ('e, 'img) services. decode_native sv' path = decode_native sv path
                \<longrightarrow> extract_ingredients_from_pdf sv' path = extract_ingredients_from_pdf sv path)"
  proof
    assume l: "40 \<le> length ?native"
    from assms l have a: "extract_ingredients_from_pdf sv path
        = ([Native_text] @ fst (extract_from_text ?native), Inr (snd (extract_from_text ?native)))"
      by (rule long)
    then have b: "Ocr_text \<notin> set (fst (extract_ingredients_from_pdf sv path))"
      by (simp add: steps_without_ocr)
    have c: "\<forall>sv' :: ('e, 'img) services. decode_native sv' path = decode_native sv path
                \<longrightarrow> extract_ingredients_from_pdf sv' path = extract_ingredients_from_pdf sv path"
    proof (intro allI impI)
      fix sv' :: "('e, 'img) services"
      assume "decode_native sv' path = decode_native sv path"
      with assms have "decode_native sv' path = Inr pages" by simp
      from long [OF this l] a
      show "extract_ingredients_from_pdf sv' path = extract_ingredients_from_pdf sv path" by simp
    qed
    from a b c show "extract_ingredients_from_pdf sv path
            = ([Native_text] @ fst (extract_from_text ?native), Inr (snd (extract_from_text ?native)))
          \<and> Ocr_text \<notin> set (fst (extract_ingredients_from_pdf sv path))
          \<and> (\<forall>sv' :: ('e, 'img) services. decode_native sv' path = decode_native sv path
                \<longrightarrow> extract_ingredients_from_pdf sv' path = extract_ingredients_from_pdf sv path)"
      by (intro conjI)
  qed
  from 1 2 3 show ?thesis by (intro conjI)
qed

text \<open>
  A document whose native text has 10 characters goes through OCR, and the heuristics
  run on the OCR text. A document whose native text has 40 characters is handled without
  OCR, here with a rasterizer that would fail.
\<close>

theorem ocr_fallback_below_forty_witness:
  "extract_ingredients_from_pdf
       \<lparr>decode_native = (\<lambda>p. Inr [Some ''0123456789'']),
        rasterize = (\<lambda>p. Inr [0 :: nat]),
        recognize = (\<lambda>i. (Inr ''Ingredients: Aqua.'' :: unit + string))\<rparr> ''a.pdf''
     = ([Native_text, Ocr_text, Inline_extractor], Inr (Some ''Aqua''))
   \<and> fst (extract_ingredients_from_pdf
       \<lparr>decode_native = (\<lambda>p. Inr [Some ''Ingredients: Aqua, Glycerin, Parf'', None, Some ''um, Talc'']),
        rasterize = (\<lambda>p. (Inl () :: unit + nat list)),
        recognize = (\<lambda>i. Inl ())\<rparr> ''b.pdf'')
     = Native_text # fst (extract_from_text ''Ingredients: Aqua, Glycerin, Parf\<newline>\<newline>um, Talc'')"
proof -
  let ?sv1 = "\<lparr>decode_native = (\<lambda>p. Inr [Some ''0123456789'']),
        rasterize = (\<lambda>p. Inr [0 :: nat]),
        recognize = (\<lambda>i. (Inr ''Ingredients: Aqua.'' :: unit + string))\<rparr>"
  let ?sv2 = "\<lparr>decode_native = (\<lambda>p. Inr [Some ''Ingredients: Aqua, Glycerin, Parf'', None, Some ''um, Talc'']),
        rasterize = (\<lambda>p. (Inl () :: unit + nat list)),
        recognize = (\<lambda>i. Inl ())\<rparr>"
  have d1: "decode_native ?sv1 ''a.pdf'' = Inr [Some ''0123456789'']" by simp
  have n1: "strip (join [newline] (map (\<lambda>p. case p of None \<Rightarrow> [] | Some t \<Rightarrow> t) [Some ''0123456789'']))
      = ''0123456789''" by (simp add: strip_def is_space_def)
  have o1: "extract_text_with_ocr ?sv1 ''a.pdf'' = Inr ''Ingredients: Aqua.''"
    by (simp add: extract_text_with_ocr_def strip_def is_space_def)
  have h1: "extract_from_text ''Ingredients: Aqua.'' = ([Inline_extractor], Some ''Aqua'')"
    using inline_on_plain_label by (rule extract_from_text_inline)
  from ocr_fallback_below_forty [OF d1] n1 o1 h1
  have a: "extract_ingredients_from_pdf ?sv1 ''a.pdf''
     = ([Native_text, Ocr_text, Inline_extractor], Inr (Some ''Aqua''))" by simp
  have d2: "decode_native ?sv2 ''b.pdf''
      = Inr [Some ''Ingredients: Aqua, Glycerin, Parf'', None, Some ''um, Talc'']" by simp
  have n2: "strip (join [newline] (map (\<lambda>p. case p of None \<Rightarrow> [] | Some t \<Rightarrow> t)
        [Some ''Ingredients: Aqua, Glycerin, Parf'', None, Some ''um, Talc'']))
      = ''Ingredients: Aqua, Glycerin, Parf\<newline>\<newline>um, Talc''"
    by (simp add: strip_def is_space_def newline_def)
  from ocr_fallback_below_forty [OF d2] n2
  have b: "fst (extract_ingredients_from_pdf ?sv2 ''b.pdf'')
     = Native_text # fst (extract_from_text ''Ingredients: Aqua, Glycerin, Parf\<newline>\<newline>um, Talc'')"
    by simp
  from a b show ?thesis by (rule conjI)
qed

subsection \<open>C7: results are absent or non-empty\<close>

text \<open>
  C7 (as amended): each extractor and the orchestrator return either absence or a
  non-empty string, never the empty string. A string returned by the inline extractor is
  normalized (a fixpoint of the normalizer), and so is the orchestrator's result when it
  comes from the inline extractor. A string returned by the tabular extractor is the
  comma-and-space join of at least one name, each name having at least three characters
  and no whitespace at either end.
\<close>

theorem results_absent_or_nonempty:
  "(\<forall>r. extract_inline_ingredients text = Some r \<longrightarrow>
        r \<noteq> [] \<and> clean_ingredients_string r = r)
   \<and> (\<forall>r. extract_table_ingredients text = Some r \<longrightarrow>
        r \<noteq> [] \<and> (\<exists>u. u \<noteq> [] \<and> r = join '', '' u
                       \<and> (\<forall>n \<in> set u. 3 \<le> length n \<and> strip n = n)))
   \<and> (\<forall>steps r. extract_from_text text = (steps, Some r) \<longrightarrow>
        r \<noteq> [] \<and> (steps = [Inline_extractor] \<longrightarrow> clean_ingredients_string r = r))
   \<and> (\<forall>(sv :: ('e, 'img) services) path steps r.
        extract_ingredients_from_pdf sv path = (steps, Inr (Some r)) \<longrightarrow> r \<noteq> [])"
proof (intro conjI allI impI)
  fix r assume a: "extract_inline_ingredients text = Some r"
  then show "r \<noteq> []" by (simp add: inline_result_normalized)
  from a show "clean_ingredients_string r = r" by (simp add: inline_result_normalized)
next
  fix r assume a: "extract_table_ingredients text = Some r"
  then show "r \<noteq> []" by (simp add: table_result_shape)
  from a show "\<exists>u. u \<noteq> [] \<and> r = join '', '' u
                       \<and> (\<forall>n \<in> set u. 3 \<le> length n \<and> strip n = n)"
    by (simp add: table_result_shape)
next
  fix steps r assume a: "extract_from_text text = (steps, Some r)"
  then show "r \<noteq> []" by (rule extract_from_text_nonempty)
  assume s: "steps = [Inline_extractor]"
  show "clean_ingredients_string r = r"
  proof (cases "extract_inline_ingredients text")
    case None
    with a s show ?thesis by (simp add: extract_from_text_table)
  next
    case (Some r')
    with a have "r' = r" by (simp add: extract_from_text_inline)
    with Some show ?thesis by (simp add: inline_result_normalized)
  qed
next
  fix sv :: "('e, 'img) services" and path steps r
  assume "extract_ingredients_from_pdf sv path = (steps, Inr (Some r))"
  then show "r \<noteq> []" by (rule orchestrator_result_nonempty)
qed

theorem results_absent_or_nonempty_witness:
  "extract_inline_ingredients ''Ingredients: Aqua.'' = Some ''Aqua''
   \<and> ''Aqua'' \<noteq> [] \<and> clean_ingredients_string ''Aqua'' = ''Aqua''
   \<and> extract_table_ingredients ''Lista de ingredientes\<newline>Aqua.'' = Some ''Aqua.''
   \<and> ''Aqua.'' \<noteq> []
   \<and> (\<exists>u. u \<noteq> [] \<and> ''Aqua.'' = join '', '' u \<and> (\<forall>n \<in> set u. 3 \<le> length n \<and> strip n = n))
   \<and> extract_from_text ''Ingredients: Aqua.'' = ([Inline_extractor], Some ''Aqua'')
   \<and> extract_ingredients_from_pdf
        \<lparr>decode_native = (\<lambda>p. Inr [Some ''0123456789'']),
         rasterize = (\<lambda>p. Inr [0 :: nat]),
         recognize = (\<lambda>i. (Inr ''Ingredients: Aqua.'' :: unit + string))\<rparr> ''a.pdf''
       = ([Native_text, Ocr_text, Inline_extractor], Inr (Some ''Aqua''))"
proof -
  let ?sv = "\<lparr>decode_native = (\<lambda>p. Inr [Some ''0123456789'']),
         rasterize = (\<lambda>p. Inr [0 :: nat]),
         recognize = (\<lambda>i. (Inr ''Ingredients: Aqua.'' :: unit + string))\<rparr>"
  from results_absent_or_nonempty [of "''Ingredients: Aqua.''"] inline_on_plain_label
  have a: "''Aqua'' \<noteq> [] \<and> clean_ingredients_string ''Aqua'' = ''Aqua''" by blast
  from results_absent_or_nonempty [of "''Lista de ingredientes\<newline>Aqua.''"] table_on_lista_rows
  have b: "''Aqua.'' \<noteq> []
      \<and> (\<exists>u. u \<noteq> [] \<and> ''Aqua.'' = join '', '' u \<and> (\<forall>n \<in> set u. 3 \<le> length n \<and> strip n = n))"
    by blast
  have h: "extract_from_text ''Ingredients: Aqua.'' = ([Inline_extractor], Some ''Aqua'')"
    using inline_on_plain_label by (rule extract_from_text_inline)
  from results_absent_or_nonempty [of "''Ingredients: Aqua.''"] h
  have "[Inline_extractor] = [Inline_extractor] \<longrightarrow> clean_ingredients_string ''Aqua'' = ''Aqua''"
    by blast
  have o: "extract_ingredients_from_pdf ?sv ''a.pdf''
       = ([Native_text, Ocr_text, Inline_extractor], Inr (Some ''Aqua''))"
    by (simp add: extract_ingredients_from_pdf_def extract_text_from_pdf_def
          extract_text_with_ocr_def strip_def is_space_def h)
  from results_absent_or_nonempty [of "''Ingredients: Aqua.''"] o
  have "''Aqua'' \<noteq> []" by blast
  from a b h o inline_on_plain_label table_on_lista_rows show ?thesis by (intro conjI) simp_all
qed

text \<open>
  The tabular extractor returns \<open>Aqua.\<close> for the text below, the orchestrator returns
  it as the final result, and it is not a fixpoint of the normalizer, which strips the
  period.
\<close>

theorem table_result_not_normalized_counterexample:
  "extract_table_ingredients ''Lista de ingredientes\<newline>Aqua.'' = Some ''Aqua.''
   \<and> extract_from_text ''Lista de ingredientes\<newline>Aqua.''
       = ([Inline_extractor, Tabular_extractor], Some ''Aqua.'')
   \<and> clean_ingredients_string ''Aqua.'' = ''Aqua''
   \<and> clean_ingredients_string ''Aqua.'' \<noteq> ''Aqua.''"
proof -
  have c: "clean_ingredients_string ''Aqua.'' = ''Aqua''" by code_simp
  have "extract_from_text ''Lista de ingredientes\<newline>Aqua.''
       = ([Inline_extractor, Tabular_extractor], Some ''Aqua.'')"
    using inline_on_lista_rows table_on_lista_rows by (simp add: extract_from_text_table)
  with table_on_lista_rows c show ?thesis by simp
qed

subsection \<open>C8: the separator after a label\<close>

text \<open>
  C8 (as amended): the colon or hyphen after an ingredient label is mandatory; only the
  whitespace before and after it is optional. Whenever the inline extractor returns a
  string, the text holds a label wording in any letter case, followed by any whitespace,
  then a colon or a hyphen, then any whitespace, then the non-empty window from which
  the returned string is computed. For every text in which no label wording is followed,
  after any whitespace, by a colon or a hyphen, the extractor signals absence; so it
  does for \<open>Ingredients Aqua, Glycerin\<close>, for \<open>Ingredients PEG-40\<close>, where
  a hyphen stands elsewhere, and for every text without a colon or hyphen.
\<close>

theorem separator_is_mandatory:
  "(\<forall>r. extract_inline_ingredients text = Some r \<longrightarrow>
      (\<exists>pre lab ws c ws' g. text = pre @ lab @ ws @ c # ws' @ g
         \<and> map lower lab \<in> set label_wordings \<and> (\<forall>x \<in> set ws. is_space x)
         \<and> (c = CHR '':'' \<or> c = CHR ''-'') \<and> (\<forall>x \<in> set ws'. is_space x) \<and> g \<noteq> []
         \<and> r = clean_ingredients_string (kept g)))
   \<and> ((\<forall>i \<le> length text. \<not> labelled_at text i) \<longrightarrow> extract_inline_ingredients text = None)
   \<and> (CHR '':'' \<notin> set text \<and> CHR ''-'' \<notin> set text \<longrightarrow>
        (\<forall>pat \<in> set patterns. re_search pat text [IGNORECASE, DOTALL] = None)
        \<and> extract_inline_ingredients text = None)"
proof (intro conjI allI impI)
  fix r assume "extract_inline_ingredients text = Some r"
  then show "\<exists>pre lab ws c ws' g. text = pre @ lab @ ws @ c # ws' @ g
         \<and> map lower lab \<in> set label_wordings \<and> (\<forall>x \<in> set ws. is_space x)
         \<and> (c = CHR '':'' \<or> c = CHR ''-'') \<and> (\<forall>x \<in> set ws'. is_space x) \<and> g \<noteq> []
         \<and> r = clean_ingredients_string (kept g)"
    by (rule inline_result_shape)
next
  assume no: "\<forall>i \<le> length text. \<not> labelled_at text i"
  show "extract_inline_ingredients text = None"
  proof (cases "extract_inline_ingredients text")
    case None
    then show ?thesis .
  next
    case (Some r)
    from inline_result_shape [OF this] obtain pre lab ws c ws' g where
      "text = pre @ lab @ ws @ c # (ws' @ g)" "map lower lab \<in> set label_wordings"
      "\<forall>x \<in> set ws. is_space x" "c = CHR '':'' \<or> c = CHR ''-''" by auto
    then have "length pre \<le> length text \<and> labelled_at text (length pre)"
      by (rule shape_labelled_at)
    with no show ?thesis by blast
  qed
next
  assume a: "CHR '':'' \<notin> set text \<and> CHR ''-'' \<notin> set text"
  have no: "\<forall>x \<in> set text. \<not> cls_ok [IGNORECASE, DOTALL] (OneOf '':-'') x"
  proof
    fix x assume x: "x \<in> set text"
    show "\<not> cls_ok [IGNORECASE, DOTALL] (OneOf '':-'') x"
    proof
      assume "cls_ok [IGNORECASE, DOTALL] (OneOf '':-'') x"
      then have "x = CHR '':'' \<or> x = CHR ''-''" by (rule separator_char)
      with x a show False by auto
    qed
  qed
  show 1: "\<forall>pat \<in> set patterns. re_search pat text [IGNORECASE, DOTALL] = None"
  proof
    fix pat assume "pat \<in> set patterns"
    then have "One (OneOf '':-'') \<in> set pat" by (rule patterns_have_separator)
    then show "re_search pat text [IGNORECASE, DOTALL] = None"
      using no by (rule re_search_needs_char)
  qed
  then have "inline_loop patterns text = None" by (rule inline_loop_no_match)
  then show "extract_inline_ingredients text = None"
    by (simp add: extract_inline_ingredients_def)
qed

text \<open>
  The first text has a label wording, whitespace, a hyphen, whitespace and the window.
  The second has a hyphen, but not after the label: at no index does a label wording
  stand before a separator, and the result is absence. The third has no colon and no
  hyphen at all.
\<close>

theorem separator_is_mandatory_witness:
  "extract_inline_ingredients ''INGREDIENTES - Aqua'' = Some ''Aqua''
   \<and> (\<exists>pre lab ws c ws' g. ''INGREDIENTES - Aqua'' = pre @ lab @ ws @ c # ws' @ g
         \<and> map lower lab \<in> set label_wordings \<and> (\<forall>x \<in> set ws. is_space x)
         \<and> (c = CHR '':'' \<or> c = CHR ''-'') \<and> (\<forall>x \<in> set ws'. is_space x) \<and> g \<noteq> []
         \<and> ''Aqua'' = clean_ingredients_string (kept g))
   \<and> list_all (\<lambda>i. \<not> labelled_at ''Ingredients PEG-40'' i)
         [0..<Suc (length ''Ingredients PEG-40'')]
   \<and> extract_inline_ingredients ''Ingredients PEG-40'' = None
   \<and> CHR '':'' \<notin> set ''INGREDIENTES Aqua, Talc'' \<and> CHR ''-'' \<notin> set ''INGREDIENTES Aqua, Talc''
   \<and> extract_inline_ingredients ''INGREDIENTES Aqua, Talc'' = None"
proof -
  note t1 = separator_is_mandatory [of "''INGREDIENTES - Aqua''", THEN conjunct1, THEN spec,
      THEN mp, OF inline_on_hyphen_label]
  have h: "\<forall>i \<le> length ''Ingredients PEG-40''. \<not> labelled_at ''Ingredients PEG-40'' i"
    unfolding all_le_upt by (rule no_label_before_hyphen)
  note t2 = separator_is_mandatory [of "''Ingredients PEG-40''", THEN conjunct2,
      THEN conjunct1, THEN mp, OF h]
  have a: "CHR '':'' \<notin> set ''INGREDIENTES Aqua, Talc''" by simp
  have b: "CHR ''-'' \<notin> set ''INGREDIENTES Aqua, Talc''" by simp
  from a b have ab: "CHR '':'' \<notin> set ''INGREDIENTES Aqua, Talc''
      \<and> CHR ''-'' \<notin> set ''INGREDIENTES Aqua, Talc''" by (rule conjI)
  note t3 = separator_is_mandatory [of "''INGREDIENTES Aqua, Talc''", THEN conjunct2,
      THEN conjunct2, THEN mp, OF ab, THEN conjunct2]
  have l: "list_all (\<lambda>i. \<not> labelled_at ''Ingredients PEG-40'' i)
         [0..<Suc (length ''Ingredients PEG-40'')]"
    unfolding list_all_iff by (rule no_label_before_hyphen)
  from inline_on_hyphen_label t1 l t2 a b t3 show ?thesis by (intro conjI)
qed

text \<open>
  The label \<open>Ingredients\<close> stands at a word boundary and is followed directly by the
  ingredient continuation, with no colon or hyphen: the extractor does not return the
  continuation, it signals absence, also when a hyphen stands further on in the text.
\<close>

theorem optional_separator_counterexample:
  "extract_inline_ingredients ''Ingredients Aqua, Glycerin'' = None
   \<and> clean_ingredients_string ''Aqua, Glycerin'' = ''Aqua, Glycerin''
   \<and> extract_inline_ingredients ''Ingredients PEG-40'' = None"
  using inline_without_separator inline_hyphen_elsewhere by simp

subsection \<open>C10: markers act at line starts only\<close>

text \<open>
  C10: stop markers and section-end markers take effect at line starts only. Every
  pattern of both marker lists begins with a newline, and a marker can match only at an
  index that holds a newline. The loop of either extractor cuts the window only at an
  index where one of its markers matches, and at the leftmost such index; where no
  marker matches, the window is not cut at all. So an occurrence of a marker's wording
  that has no newline directly before it never truncates the window, whether the window
  has other lines or not, and a window without a newline is never cut.
\<close>

theorem markers_need_newline:
  assumes "sms = STOP_MARKERS \<or> sms = stop_pats"
  shows "(\<forall>sm \<in> set sms. \<exists>r. sm = One (Lit newline) # r)
    \<and> (\<forall>sm \<in> set sms. \<forall>i. matches_at [IGNORECASE] sm s i \<longrightarrow> i < length s \<and> s ! i = newline)
    \<and> (cut_loop sms s (length s) = length s
        \<or> (cut_loop sms s (length s) < length s \<and> s ! cut_loop sms s (length s) = newline
            \<and> (\<exists>sm \<in> set sms. matches_at [IGNORECASE] sm s (cut_loop sms s (length s)))))
    \<and> (\<forall>sm \<in> set sms. \<forall>i. matches_at [IGNORECASE] sm s i \<longrightarrow> cut_loop sms s (length s) \<le> i)
    \<and> ((\<forall>sm \<in> set sms. \<forall>i. \<not> matches_at [IGNORECASE] sm s i)
        \<longrightarrow> cut_loop sms s (length s) = length s)
    \<and> ((\<forall>sm \<in> set sms. re_search sm s [IGNORECASE] = None)
        \<longrightarrow> cut_loop sms s (length s) = length s)
    \<and> (newline \<notin> set s \<longrightarrow> cut_loop sms s (length s) = length s)"
proof -
  let ?c = "cut_loop sms s (length s)"
  have first: "\<forall>sm \<in> set sms. \<exists>r. sm = One (Lit newline) # r"
    using assms STOP_MARKERS_newline stop_pats_newline by blast
  have at: "\<forall>sm \<in> set sms. \<forall>i. matches_at [IGNORECASE] sm s i \<longrightarrow> i < length s \<and> s ! i = newline"
  proof (intro ballI allI impI)
    fix sm i assume "sm \<in> set sms" and m: "matches_at [IGNORECASE] sm s i"
    with first obtain r where "sm = One (Lit newline) # r" by blast
    with m show "i < length s \<and> s ! i = newline" by (simp add: matches_at_newline)
  qed
  have cut: "?c = length s \<or> (?c < length s \<and> s ! ?c = newline
      \<and> (\<exists>sm \<in> set sms. matches_at [IGNORECASE] sm s ?c))"
  proof (cases "?c = length s")
    case True
    then show ?thesis by simp
  next
    case False
    with cut_loop_at_match [of sms s "length s"]
    obtain sm where sm: "sm \<in> set sms" "matches_at [IGNORECASE] sm s ?c" by blast
    with at have "?c < length s \<and> s ! ?c = newline" by blast
    with sm show ?thesis by blast
  qed
  have left: "\<forall>sm \<in> set sms. \<forall>i. matches_at [IGNORECASE] sm s i \<longrightarrow> ?c \<le> i"
  proof (intro ballI allI impI)
    fix sm i assume "sm \<in> set sms" "matches_at [IGNORECASE] sm s i"
    then show "?c \<le> i" by (rule cut_loop_leftmost)
  qed
  have none: "(\<forall>sm \<in> set sms. \<forall>i. \<not> matches_at [IGNORECASE] sm s i) \<longrightarrow> ?c = length s"
    using cut by blast
  have none': "(\<forall>sm \<in> set sms. re_search sm s [IGNORECASE] = None) \<longrightarrow> ?c = length s"
  proof
    assume "\<forall>sm \<in> set sms. re_search sm s [IGNORECASE] = None"
    then show "?c = length s" by (rule cut_loop_no_match)
  qed
  have nl: "newline \<notin> set s \<longrightarrow> ?c = length s"
  proof
    assume n: "newline \<notin> set s"
    show "?c = length s"
    proof (rule ccontr)
      assume "?c \<noteq> length s"
      with cut have "?c < length s" "s ! ?c = newline" by simp_all
      then have "newline \<in> set s" by (metis nth_mem)
      with n show False by simp
    qed
  qed
  from first at cut left none none' nl show ?thesis by (intro conjI)
qed

text \<open>
  In the first two windows a marker's wording stands in the middle of the first line and
  a second line follows: no marker matches and the window is not cut, not even at the
  newline. In the third the wording begins a line and the window is cut there. The last
  three windows have no newline and are not cut; the second of them begins with a
  marker's wording.
\<close>

theorem markers_need_newline_witness:
  "cut_loop STOP_MARKERS ''Aqua www.x\<newline>Talc'' (length ''Aqua www.x\<newline>Talc'') = 15
   \<and> cut_loop stop_pats ''Aqua Total\<newline>Talc'' (length ''Aqua Total\<newline>Talc'') = 15
   \<and> cut_loop STOP_MARKERS ''Aqua\<newline>www.x'' (length ''Aqua\<newline>www.x'') = 4
   \<and> ''Aqua\<newline>www.x'' ! 4 = newline
   \<and> (\<exists>sm \<in> set STOP_MARKERS. matches_at [IGNORECASE] sm ''Aqua\<newline>www.x'' 4)
   \<and> cut_loop STOP_MARKERS ''Aqua, visit www.example.com'' (length ''Aqua, visit www.example.com'')
     = length ''Aqua, visit www.example.com''
   \<and> cut_loop STOP_MARKERS ''warning: keep away'' (length ''warning: keep away'')
     = length ''warning: keep away''
   \<and> cut_loop stop_pats ''Aqua Total 100'' (length ''Aqua Total 100'') = length ''Aqua Total 100''"
proof -
  from markers_need_newline [of STOP_MARKERS "''Aqua www.x\<newline>Talc''"] midline_www
  have a: "cut_loop STOP_MARKERS ''Aqua www.x\<newline>Talc'' (length ''Aqua www.x\<newline>Talc'') = 15"
    by simp
  from markers_need_newline [of stop_pats "''Aqua Total\<newline>Talc''"] midline_total
  have b: "cut_loop stop_pats ''Aqua Total\<newline>Talc'' (length ''Aqua Total\<newline>Talc'') = 15"
    by simp
  note t = markers_need_newline [of STOP_MARKERS "''Aqua\<newline>www.x''",
      OF disjI1 [OF refl], THEN conjunct2, THEN conjunct2, THEN conjunct1]
  have c: "''Aqua\<newline>www.x'' ! 4 = newline
      \<and> (\<exists>sm \<in> set STOP_MARKERS. matches_at [IGNORECASE] sm ''Aqua\<newline>www.x'' 4)"
    using t unfolding line_start_www by (simp add: newline_def)
  have n1: "newline \<notin> set ''Aqua, visit www.example.com''" by (simp add: newline_def)
  have n2: "newline \<notin> set ''warning: keep away''" by (simp add: newline_def)
  have n3: "newline \<notin> set ''Aqua Total 100''" by (simp add: newline_def)
  from markers_need_newline [of STOP_MARKERS "''Aqua, visit www.example.com''"] n1
  have d: "cut_loop STOP_MARKERS ''Aqua, visit www.example.com'' (length ''Aqua, visit www.example.com'')
     = length ''Aqua, visit www.example.com''" by blast
  from markers_need_newline [of STOP_MARKERS "''warning: keep away''"] n2
  have e: "cut_loop STOP_MARKERS ''warning: keep away'' (length ''warning: keep away'')
     = length ''warning: keep away''" by blast
  from markers_need_newline [of stop_pats "''Aqua Total 100''"] n3
  have f: "cut_loop stop_pats ''Aqua Total 100'' (length ''Aqua Total 100'') = length ''Aqua Total 100''"
    by blast
  from c have c1: "''Aqua\<newline>www.x'' ! 4 = newline"
    and c2: "\<exists>sm \<in> set STOP_MARKERS. matches_at [IGNORECASE] sm ''Aqua\<newline>www.x'' 4"
    by (rule conjunct1, rule conjunct2)
  from a b line_start_www c1 c2 d e f show ?thesis by (intro conjI)
qed

end
